theory Spec2Isabelle
  imports Complex_Main "HOL-Library.Sublist"
begin

section \<open>Platform functions\<close>

text \<open>
  \<^verbatim>\<open>server.js\<close> calls three functions of the JavaScript platform whose behaviour is fixed
  by tables and standards that are not part of the repository: \<^verbatim>\<open>String.prototype.toLowerCase\<close>,
  \<^verbatim>\<open>String.prototype.normalize('NFKD')\<close> and the \<^verbatim>\<open>URL\<close> constructor (of which only
  \<^verbatim>\<open>pathname\<close> is read; \<open>None\<close> stands for the constructor throwing). They are parameters
  of the model. A string is the list of its UTF-16 code units, one character each; a
  character of the model has 256 values, so the model covers the strings of code units
  below 256. \<^verbatim>\<open>path.basename\<close> and \<^verbatim>\<open>path.join\<close> are modelled as on a POSIX system.
\<close>

record platform =
  toLowerCase :: "string \<Rightarrow> string"
  normalizeNFKD :: "string \<Rightarrow> string"
  urlPathname :: "string \<Rightarrow> string option"

definition charCode :: "char \<Rightarrow> nat" where
  "charCode c = of_char c"

definition asciiLower :: "char \<Rightarrow> char" where
  "asciiLower c =
     (case map_of (zip ''ABCDEFGHIJKLMNOPQRSTUVWXYZ'' ''abcdefghijklmnopqrstuvwxyz'') c of
        Some l \<Rightarrow> l
      | None \<Rightarrow> c)"

text \<open>
  On a string of ASCII characters the two Unicode functions are known: lowercasing maps
  \<open>A\<close>..\<open>Z\<close> to \<open>a\<close>..\<open>z\<close> and changes nothing else, and no ASCII character has a
  decomposition. The examples of the specification are ASCII strings, and the theorems
  about them assume only this much of the platform.
\<close>

definition asciiFaithful :: "platform \<Rightarrow> bool" where
  "asciiFaithful P \<longleftrightarrow>
     (\<forall>s. (\<forall>c \<in> set s. charCode c < 128) \<longrightarrow>
        toLowerCase P s = map asciiLower s \<and> normalizeNFKD P s = s)"

text \<open>
  A platform for the examples: the Unicode functions restricted to ASCII, and a URL parser
  that knows the URL of the specification's example and rejects every other string.
\<close>

definition exampleUrlPathname :: "string \<Rightarrow> string option" where
  "exampleUrlPathname u =
     (if u = ''https://host/path/Report-Name.pdf'' then Some ''/path/Report-Name.pdf''
      else if u = ''https://host/.pdf'' then Some ''/.pdf''
      else None)"

definition asciiPlatform :: platform where
  "asciiPlatform =
     \<lparr>toLowerCase = map asciiLower, normalizeNFKD = (\<lambda>s. s), urlPathname = exampleUrlPathname\<rparr>"

section \<open>Text normalizer\<close>

definition isLowerAlnum :: "char \<Rightarrow> bool" where
  \<comment> \<open>the character class \<^verbatim>\<open>[a-z0-9]\<close>\<close>
  "isLowerAlnum c \<longleftrightarrow>
     (97 \<le> charCode c \<and> charCode c \<le> 122) \<or> (48 \<le> charCode c \<and> charCode c \<le> 57)"

definition normalizeText :: "platform \<Rightarrow> string \<Rightarrow> string" where
  "normalizeText P value =
     (if value = [] then []
      else filter isLowerAlnum (normalizeNFKD P (toLowerCase P value)))"

text \<open>
  \<^verbatim>\<open>.replace(/[^a-z0-9]+/g, '-')\<close>: every maximal run of characters outside the class
  becomes one hyphen. The flag says whether the scan is inside such a run.
\<close>

fun hyphenateRuns :: "bool \<Rightarrow> string \<Rightarrow> string" where
  "hyphenateRuns inRun [] = []"
| "hyphenateRuns inRun (c # cs) =
     (if isLowerAlnum c then c # hyphenateRuns False cs
      else if inRun then hyphenateRuns True cs
      else CHR ''-'' # hyphenateRuns True cs)"

definition trimHyphens :: "string \<Rightarrow> string" where
  \<comment> \<open>\<^verbatim>\<open>.replace(/^-+|-+$/g, '')\<close>\<close>
  "trimHyphens s =
     rev (dropWhile (\<lambda>c. c = CHR ''-'') (rev (dropWhile (\<lambda>c. c = CHR ''-'') s)))"

definition createSlug :: "platform \<Rightarrow> string \<Rightarrow> string" where
  "createSlug P value = trimHyphens (hyphenateRuns False (normalizeNFKD P (toLowerCase P value)))"

section \<open>Edit distance\<close>

text \<open>
  \<^verbatim>\<open>levenshteinDistance\<close> keeps two arrays. \<open>rowStep\<close> is the body of the inner loop (one
  \<^verbatim>\<open>push\<close>), \<open>buildRow\<close> the inner loop, \<open>copyRow\<close> the loop that copies the finished row
  over \<^verbatim>\<open>previousRow\<close> cell by cell, and the outer loop is the fold in
  \<open>levenshteinDistance\<close>. Every index read is in range by construction of the rows.
\<close>

definition rowStep :: "'a list \<Rightarrow> 'a list \<Rightarrow> nat list \<Rightarrow> nat \<Rightarrow> nat list \<Rightarrow> nat \<Rightarrow> nat list" where
  "rowStep a b previousRow i currentRow j =
     (let insertCost = currentRow ! j + 1;
          deleteCost = previousRow ! (j + 1) + 1;
          replaceCost = previousRow ! j + (if a ! i = b ! j then 0 else 1)
      in currentRow @ [min (min insertCost deleteCost) replaceCost])"

definition buildRow :: "'a list \<Rightarrow> 'a list \<Rightarrow> nat list \<Rightarrow> nat \<Rightarrow> nat list" where
  "buildRow a b previousRow i =
     fold (\<lambda>j currentRow. rowStep a b previousRow i currentRow j) [0..<length b] [i + 1]"

definition copyRow :: "nat list \<Rightarrow> nat list \<Rightarrow> nat \<Rightarrow> nat list" where
  "copyRow currentRow previousRow n =
     fold (\<lambda>j row. row[j := currentRow ! j]) [0..<n + 1] previousRow"

definition levenshteinDistance :: "'a list \<Rightarrow> 'a list \<Rightarrow> nat" where
  "levenshteinDistance a b =
     (if a = b then 0
      else if length a = 0 then length b
      else if length b = 0 then length a
      else let previousRow =
                 fold (\<lambda>i previousRow. copyRow (buildRow a b previousRow i) previousRow (length b))
                   [0..<length a] [0..<length b + 1]
           in previousRow ! length b)"

text \<open>
  The reference the specification names: the recursive definition of the Levenshtein
  distance, with insertion, deletion and substitution at cost 1 each.
\<close>

fun editDistance :: "'a list \<Rightarrow> 'a list \<Rightarrow> nat" where
  "editDistance [] ys = length ys"
| "editDistance xs [] = length xs"
| "editDistance (x # xs) (y # ys) =
     min (min (editDistance (x # xs) ys + 1) (editDistance xs (y # ys) + 1))
         (editDistance xs ys + (if x = y then 0 else 1))"

section \<open>Numbers\<close>

text \<open>
  JavaScript numbers are IEEE 754 binary64 values. A finite double is modelled by the
  rational it denotes, and each arithmetic operation by the exact operation followed by
  rounding to the nearest double, ties to even. The scores of this program are quotients of
  string lengths and differences \<open>1 - q\<close> of such quotients, so overflow, subnormal
  numbers, infinities and NaN do not arise and are not modelled; the one infinity the
  program uses, the initial \<^verbatim>\<open>bestScore = -Infinity\<close>, is the value \<open>None\<close> of the search
  state below.
\<close>

function bitLength :: "int \<Rightarrow> int" where
  "bitLength n = (if n \<le> 0 then 0 else 1 + bitLength (n div 2))"
  by pat_completeness auto
termination
  by (relation "measure nat") auto

declare bitLength.simps [simp del]

definition pow2 :: "int \<Rightarrow> rat" where
  "pow2 k = (if 0 \<le> k then 2 ^ nat k else 1 / 2 ^ nat (- k))"

definition binaryExponent :: "rat \<Rightarrow> int" where
  \<comment> \<open>for \<open>x > 0\<close>, the \<open>e\<close> with \<open>2\<^sup>e \<le> x < 2\<^sup>e\<^sup>+\<^sup>1\<close>\<close>
  "binaryExponent x =
     (let (p, q) = quotient_of x;
          k = bitLength p - bitLength q
      in if pow2 k \<le> x then k else k - 1)"

definition roundTiesEven :: "rat \<Rightarrow> int" where
  "roundTiesEven x =
     (let f = \<lfloor>x\<rfloor>; r = x - of_int f
      in if r < 1 / 2 then f else if 1 / 2 < r then f + 1 else if even f then f else f + 1)"

definition roundToDouble :: "rat \<Rightarrow> rat" where
  \<comment> \<open>53 significant bits: the unit in the last place of \<open>x\<close> is \<open>2\<^sup>e\<^sup>-\<^sup>5\<^sup>2\<close>\<close>
  "roundToDouble x =
     (if x = 0 then 0
      else let e = binaryExponent \<bar>x\<bar>; u = pow2 (e - 52)
           in sgn x * of_int (roundTiesEven (\<bar>x\<bar> / u)) * u)"

definition numDiv :: "rat \<Rightarrow> rat \<Rightarrow> rat" where
  "numDiv x y = roundToDouble (x / y)"

definition numSub :: "rat \<Rightarrow> rat \<Rightarrow> rat" where
  "numSub x y = roundToDouble (x - y)"

definition double_0_6 :: rat where
  \<comment> \<open>the literal \<^verbatim>\<open>0.6\<close>\<close>
  "double_0_6 = roundToDouble (6 / 10)"

definition double_0_45 :: rat where
  \<comment> \<open>the literal \<^verbatim>\<open>0.45\<close>\<close>
  "double_0_45 = roundToDouble (45 / 100)"

definition similarityOf :: "nat \<Rightarrow> nat \<Rightarrow> rat" where
  \<comment> \<open>the expression \<^verbatim>\<open>1 - distance / maxLength\<close>\<close>
  "similarityOf distance maxLength = numSub 1 (numDiv (of_nat distance) (of_nat maxLength))"

definition similarity :: "'a list \<Rightarrow> 'a list \<Rightarrow> rat" where
  \<comment> \<open>the three statements that both resolvers run on a pair of strings\<close>
  "similarity key normalized =
     (let maxLength = max (max (length key) (length normalized)) 1;
          distance = levenshteinDistance key normalized
      in similarityOf distance maxLength)"

section \<open>Report records\<close>

text \<open>
  A report record is a JavaScript object. The four identifying fields hold a string when
  they are present (\<open>None\<close>: absent or \<^verbatim>\<open>null\<close>); \<open>explanationPath\<close> and
  \<open>hasExplanation\<close> are the two fields the server adds; every other field of the record is
  kept in \<open>others\<close>, whatever its value.
\<close>

datatype docval = DocPath string | ObjectConstructor

datatype 'a property = Missing | Null | Value 'a

record 'v report =
  slug :: "string option"
  title :: "string option"
  github_repo :: "string option"
  url :: "string option"
  explanationPath :: "docval property"
  hasExplanation :: "bool option"
  others :: "string \<rightharpoonup> 'v"

definition emptyReport :: "'v report" where
  \<comment> \<open>the object \<^verbatim>\<open>{}\<close>\<close>
  "emptyReport =
     \<lparr>slug = None, title = None, github_repo = None, url = None,
      explanationPath = Missing, hasExplanation = None, others = Map.empty\<rparr>"

definition truthy :: "string option \<Rightarrow> bool" where
  "truthy f \<longleftrightarrow> (case f of None \<Rightarrow> False | Some s \<Rightarrow> s \<noteq> [])"

fun firstTruthy :: "string option list \<Rightarrow> string option" where
  \<comment> \<open>a chain \<^verbatim>\<open>a || b || c\<close> of string fields; \<open>None\<close> when every operand is falsy\<close>
  "firstTruthy [] = None"
| "firstTruthy (f # fs) = (if truthy f then f else firstTruthy fs)"

section \<open>Document index\<close>

text \<open>
  \<^verbatim>\<open>reportDocsIndex\<close> is an object created by the literal \<^verbatim>\<open>{}\<close>. Its own properties are kept
  in insertion order. Reading \<^verbatim>\<open>reportDocsIndex[key]\<close> looks at the own properties and then
  at the prototype \<^verbatim>\<open>Object.prototype\<close>; every key the server reads is an output of
  \<open>normalizeText\<close>, a string over \<^verbatim>\<open>[a-z0-9]\<close>, and the only property of
  \<^verbatim>\<open>Object.prototype\<close> with such a name is \<^verbatim>\<open>constructor\<close>, whose value is the function
  \<^verbatim>\<open>Object\<close>.
\<close>

type_synonym docsIndex = "(string \<times> string) list"

fun assignProp :: "string \<Rightarrow> string \<Rightarrow> docsIndex \<Rightarrow> docsIndex" where
  \<comment> \<open>\<^verbatim>\<open>index[key] = value\<close>: an existing own property keeps its position\<close>
  "assignProp k v [] = [(k, v)]"
| "assignProp k v ((k', v') # ps) =
     (if k' = k then (k, v) # ps else (k', v') # assignProp k v ps)"

definition propGet :: "docsIndex \<Rightarrow> string \<Rightarrow> docval option" where
  "propGet index key =
     (case map_of index key of
        Some path \<Rightarrow> Some (DocPath path)
      | None \<Rightarrow> if key = ''constructor'' then Some ObjectConstructor else None)"

definition truthyVal :: "docval option \<Rightarrow> bool" where
  "truthyVal v \<longleftrightarrow>
     (case v of None \<Rightarrow> False | Some (DocPath p) \<Rightarrow> p \<noteq> [] | Some ObjectConstructor \<Rightarrow> True)"

text \<open>
  \<^verbatim>\<open>Object.entries\<close> lists the own properties whose names are array indices (canonical
  decimal numerals below \<open>2\<^sup>3\<^sup>2 - 1\<close>) first, in ascending numeric order, and then the
  others in insertion order.
\<close>

definition isDigit :: "char \<Rightarrow> bool" where
  "isDigit c \<longleftrightarrow> 48 \<le> charCode c \<and> charCode c \<le> 57"

definition decimalValue :: "string \<Rightarrow> int" where
  "decimalValue s = foldl (\<lambda>n c. 10 * n + (int (charCode c) - 48)) 0 s"

definition isArrayIndex :: "string \<Rightarrow> bool" where
  "isArrayIndex s \<longleftrightarrow>
     s \<noteq> [] \<and> list_all isDigit s \<and> (s = ''0'' \<or> hd s \<noteq> CHR ''0'') \<and> length s \<le> 10
       \<and> decimalValue s < 4294967295"

definition objectEntries :: "docsIndex \<Rightarrow> (string \<times> string) list" where
  "objectEntries index =
     sort_key (\<lambda>(k, v). decimalValue k) (filter (\<lambda>(k, v). isArrayIndex k) index)
       @ filter (\<lambda>(k, v). \<not> isArrayIndex k) index"

text \<open>
  The file system as the server sees it: the outcome of \<^verbatim>\<open>fs.readdir\<close> on the documents
  directory, the outcome of reading and parsing \<^verbatim>\<open>data/reports.json\<close>, and the path of the
  documents directory. An array element that is not an object (\<open>None\<close>) is replaced by
  \<^verbatim>\<open>{}\<close>.
\<close>

datatype dirListing = DirMissing | DirFailure | DirEntries "string list"

datatype 'v recordsSource =
    SourceMissing | SourceFailure | SourceNotJSON | SourceNotArray | SourceArray "'v report option list"

record 'v files =
  reportsDir :: string
  directory :: dirListing
  source :: "'v recordsSource"

text \<open>
  The state of the process: the two caches, and a counter of the reads of
  \<^verbatim>\<open>data/reports.json\<close> (the counter exists in the model only).
\<close>

record 'v state =
  reportsCache :: "'v report list"
  reportDocsIndex :: "docsIndex option"
  sourceReads :: nat

definition indexEntry :: "platform \<Rightarrow> string \<Rightarrow> string \<Rightarrow> docsIndex \<Rightarrow> docsIndex" where
  \<comment> \<open>the body of \<^verbatim>\<open>entries.forEach\<close>; \<^verbatim>\<open>path.join(reportsDir, entry)\<close> puts one separator between\<close>
  "indexEntry P dir entry index =
     (if suffix ''.md'' (toLowerCase P entry) then
        let baseName = take (length entry - 3) entry;
            normalized = normalizeText P baseName
        in if normalized \<noteq> [] then assignProp normalized (dir @ ''/'' @ entry) index else index
      else index)"

definition scanDirectory :: "platform \<Rightarrow> 'v files \<Rightarrow> docsIndex" where
  "scanDirectory P fs =
     (case directory fs of
        DirEntries entries \<Rightarrow> fold (indexEntry P (reportsDir fs)) entries []
      | DirMissing \<Rightarrow> []
      | DirFailure \<Rightarrow> [])"

definition ensureReportDocsIndex :: "platform \<Rightarrow> 'v files \<Rightarrow> 'v state \<Rightarrow> 'v state" where
  "ensureReportDocsIndex P fs s =
     (if reportDocsIndex s \<noteq> None then s
      else s\<lparr>reportDocsIndex := Some (scanDirectory P fs)\<rparr>)"

section \<open>Candidate generator\<close>

definition setAdd :: "'a \<Rightarrow> 'a list \<Rightarrow> 'a list" where
  \<comment> \<open>\<^verbatim>\<open>Set.prototype.add\<close>, the set kept in insertion order\<close>
  "setAdd x xs = (if x \<in> set xs then xs else xs @ [x])"

fun splitOn :: "char \<Rightarrow> string \<Rightarrow> string list" where
  "splitOn sep [] = [[]]"
| "splitOn sep (c # cs) =
     (if c = sep then [] # splitOn sep cs
      else (case splitOn sep cs of [] \<Rightarrow> [[c]] | w # ws \<Rightarrow> (c # w) # ws))"

definition basename :: "string \<Rightarrow> string" where
  \<comment> \<open>\<^verbatim>\<open>path.basename\<close> (POSIX): trailing separators are ignored\<close>
  "basename p =
     rev (takeWhile (\<lambda>c. c \<noteq> CHR ''/'') (dropWhile (\<lambda>c. c = CHR ''/'') (rev p)))"

definition stripExtension :: "string \<Rightarrow> string" where
  \<comment> \<open>\<^verbatim>\<open>.replace(/\.[^.]+$/, '')\<close>: the match can only start at the last dot\<close>
  "stripExtension s =
     (let ext = takeWhile (\<lambda>c. c \<noteq> CHR ''.'') (rev s)
      in if ext \<noteq> [] \<and> length ext < length s then take (length s - length ext - 1) s else s)"

definition addGithubRepo :: "string \<Rightarrow> string list \<Rightarrow> string list" where
  "addGithubRepo repo candidates =
     (let candidates' = setAdd repo candidates;
          segments = filter (\<lambda>s. s \<noteq> []) (splitOn CHR ''/'' repo)
      in if length segments > 0 then setAdd (last segments) candidates' else candidates')"

definition addUrl :: "platform \<Rightarrow> string \<Rightarrow> string list \<Rightarrow> string list" where
  "addUrl P u candidates =
     (let candidates' = setAdd u candidates
      in case urlPathname P u of
           None \<Rightarrow> candidates'
         | Some pathname \<Rightarrow>
             if pathname \<noteq> [] then
               let fileName = basename pathname
               in if fileName \<noteq> []
                  then setAdd (stripExtension fileName) (setAdd fileName candidates')
                  else candidates'
             else candidates')"

definition buildReportDocCandidates :: "platform \<Rightarrow> 'v report \<Rightarrow> string \<Rightarrow> string list" where
  "buildReportDocCandidates P report slug' =
     (let c1 = (if slug' \<noteq> [] then setAdd slug' [] else []);
          c2 = (if truthy (title report) then setAdd (the (title report)) c1 else c1);
          c3 = (if truthy (github_repo report) then addGithubRepo (the (github_repo report)) c2 else c2);
          c4 = (if truthy (url report) then addUrl P (the (url report)) c3 else c3)
      in filter (\<lambda>c. c \<noteq> []) c4)"

section \<open>Report resolver\<close>

definition scoreEntry :: "string \<Rightarrow> string \<times> string \<Rightarrow> string option \<times> rat \<Rightarrow> string option \<times> rat" where
  \<comment> \<open>the body of \<^verbatim>\<open>entries.forEach\<close> in \<^verbatim>\<open>findDocPathForCandidates\<close>\<close>
  "scoreEntry normalized entry best =
     (case entry of (key, value) \<Rightarrow>
        if similarity key normalized > snd best then (Some value, similarity key normalized)
        else best)"

text \<open>
  The loop over the candidates either returns from the function with the value of an exact
  lookup (\<open>Inl\<close>) or runs to its end with the best pair seen (\<open>Inr\<close>).
\<close>

fun scanCandidates ::
  "platform \<Rightarrow> docsIndex \<Rightarrow> string list \<Rightarrow> string option \<times> rat \<Rightarrow> docval + string option \<times> rat" where
  "scanCandidates P index [] best = Inr best"
| "scanCandidates P index (candidate # rest) best =
     (let normalized = normalizeText P candidate
      in if normalized \<noteq> [] \<and> truthyVal (propGet index normalized) then Inl (the (propGet index normalized))
         else if normalized = [] then scanCandidates P index rest best
         else scanCandidates P index rest (fold (scoreEntry normalized) (objectEntries index) best))"

definition findDocPathForCandidates :: "platform \<Rightarrow> docsIndex option \<Rightarrow> string list \<Rightarrow> docval option" where
  "findDocPathForCandidates P index candidates =
     (case index of
        None \<Rightarrow> None
      | Some ix \<Rightarrow>
          (case scanCandidates P ix candidates (None, 0) of
             Inl found \<Rightarrow> Some found
           | Inr (bestPath, bestSimilarity) \<Rightarrow>
               if truthy bestPath \<and> bestSimilarity \<ge> double_0_6 then Some (DocPath (the bestPath))
               else None))"

definition resolveExplanationPath ::
  "platform \<Rightarrow> 'v files \<Rightarrow> 'v state \<Rightarrow> 'v report \<Rightarrow> docval option \<times> 'v state" where
  "resolveExplanationPath P fs s report =
     (let s' = ensureReportDocsIndex P fs s;
          slugSource = firstTruthy [slug report, title report, github_repo report, url report];
          slug' = (case slugSource of Some src \<Rightarrow> createSlug P src | None \<Rightarrow> []);
          candidates = buildReportDocCandidates P report slug'
      in (findDocPathForCandidates P (reportDocsIndex s') candidates, s'))"

definition sanitizeReport :: "'v report option \<Rightarrow> 'v report option" where
  "sanitizeReport report =
     (case report of None \<Rightarrow> None | Some r \<Rightarrow> Some (r\<lparr>explanationPath := Missing\<rparr>))"

text \<open>
  The search state pairs \<^verbatim>\<open>bestMatch\<close> with \<^verbatim>\<open>bestScore\<close>; the two variables are only ever
  assigned together, and \<open>None\<close> is their initial state (\<^verbatim>\<open>null\<close>, \<^verbatim>\<open>-Infinity\<close>), below
  which every score lies.
\<close>

definition exceeds :: "rat \<Rightarrow> ('r \<times> rat) option \<Rightarrow> bool" where
  "exceeds score best \<longleftrightarrow> (case best of None \<Rightarrow> True | Some (r, bestScore) \<Rightarrow> score > bestScore)"

fun stringIncludes :: "'a list \<Rightarrow> 'a list \<Rightarrow> bool" where
  \<comment> \<open>\<^verbatim>\<open>s.includes(t)\<close>: \<open>t\<close> occurs in \<open>s\<close> as a contiguous substring\<close>
  "stringIncludes [] t = (t = [])"
| "stringIncludes (c # cs) t = (prefix t (c # cs) \<or> stringIncludes cs t)"

definition comparisonStrings :: "platform \<Rightarrow> 'v report \<Rightarrow> string list" where
  "comparisonStrings P report =
     map (\<lambda>f. normalizeText P (the f)) (filter truthy [title report, github_repo report, url report])"

definition candidateScore :: "string \<Rightarrow> string \<Rightarrow> rat" where
  \<comment> \<open>the score one non-empty comparison string receives\<close>
  "candidateScore normalizedQuery candidate =
     (if stringIncludes candidate normalizedQuery \<or> stringIncludes normalizedQuery candidate
      then numDiv (of_nat (length normalizedQuery)) (of_nat (max (length candidate) 1))
      else similarity candidate normalizedQuery)"

definition scoreCandidate ::
  "string \<Rightarrow> 'r \<Rightarrow> string \<Rightarrow> ('r \<times> rat) option \<Rightarrow> ('r \<times> rat) option" where
  \<comment> \<open>the body of \<^verbatim>\<open>candidates.forEach\<close> in \<^verbatim>\<open>findBestReportMatch\<close>\<close>
  "scoreCandidate normalizedQuery report candidate best =
     (if candidate = [] then best
      else if exceeds (candidateScore normalizedQuery candidate) best
           then Some (report, candidateScore normalizedQuery candidate)
           else best)"

definition scanReports :: "platform \<Rightarrow> 'v report list \<Rightarrow> string \<Rightarrow> ('v report \<times> rat) option" where
  "scanReports P cache normalizedQuery =
     fold (\<lambda>report best. fold (scoreCandidate normalizedQuery report) (comparisonStrings P report) best)
       cache None"

definition findBestReportMatch :: "platform \<Rightarrow> 'v report list \<Rightarrow> string \<Rightarrow> ('v report \<times> rat) option" where
  "findBestReportMatch P cache query =
     (let normalizedQuery = normalizeText P query
      in if normalizedQuery = [] then None
         else case scanReports P cache normalizedQuery of
                None \<Rightarrow> None
              | Some (bestMatch, bestScore) \<Rightarrow>
                  if bestScore < double_0_45 then None else Some (bestMatch, bestScore))"

section \<open>Report cache\<close>

function showNat :: "nat \<Rightarrow> string" where
  "showNat n = (if n < 10 then [char_of (48 + n)] else showNat (n div 10) @ [char_of (48 + n mod 10)])"
  by pat_completeness auto
termination
  by (relation "measure id") auto

declare showNat.simps [simp del]

definition placeholder :: "nat \<Rightarrow> string" where
  \<comment> \<open>the template \<^verbatim>\<open>report-${index + 1}\<close>\<close>
  "placeholder index = ''report-'' @ showNat (index + 1)"

definition deriveSlug :: "platform \<Rightarrow> 'v report \<Rightarrow> nat \<Rightarrow> string" where
  "deriveSlug P base index =
     (let slugSource = (case firstTruthy [slug base, title base, github_repo base, url base] of
                          Some src \<Rightarrow> src | None \<Rightarrow> placeholder index);
          slugCandidate = createSlug P slugSource
      in if slugCandidate \<noteq> [] then slugCandidate else placeholder index)"

definition enrich ::
  "platform \<Rightarrow> 'v files \<Rightarrow> 'v state \<Rightarrow> 'v report option \<times> nat \<Rightarrow> 'v report" where
  \<comment> \<open>the function mapped over the array, given the element and its index\<close>
  "enrich P fs s itemAt =
     (case itemAt of (item, index) \<Rightarrow>
        let base = (case item of Some r \<Rightarrow> r | None \<Rightarrow> emptyReport);
            reportWithSlug = base\<lparr>slug := Some (deriveSlug P base index)\<rparr>;
            found = fst (resolveExplanationPath P fs s reportWithSlug)
        in reportWithSlug
             \<lparr>explanationPath := (if truthyVal found then Value (the found) else Null),
              hasExplanation := Some (truthyVal found)\<rparr>)"

definition ensureReportsLoaded :: "platform \<Rightarrow> 'v files \<Rightarrow> 'v state \<Rightarrow> 'v state" where
  "ensureReportsLoaded P fs s =
     (if length (reportsCache s) > 0 then s
      else let s1 = s\<lparr>sourceReads := sourceReads s + 1\<rparr>
           in case source fs of
                SourceArray items \<Rightarrow>
                  let s2 = ensureReportDocsIndex P fs s1
                  in s2\<lparr>reportsCache := map (enrich P fs s2) (zip items [0..<length items])\<rparr>
              | SourceNotArray \<Rightarrow> (ensureReportDocsIndex P fs s1)\<lparr>reportsCache := []\<rparr>
              | SourceMissing \<Rightarrow> s1\<lparr>reportsCache := []\<rparr>
              | SourceFailure \<Rightarrow> s1\<lparr>reportsCache := []\<rparr>
              | SourceNotJSON \<Rightarrow> s1\<lparr>reportsCache := []\<rparr>)"

section \<open>Endpoints\<close>

text \<open>
  The two endpoints that publish report records, without the HTTP layer: the argument is
  the request parameter (for the search, the parameter \<^verbatim>\<open>q\<close> after \<^verbatim>\<open>trim()\<close>) and the
  result is what the handler sends. \<open>readFile\<close> is \<^verbatim>\<open>fs.readFile\<close> on a document, \<open>None\<close>
  when it throws; it throws on every argument that is not a path. An exception in a
  handler becomes the status 500.
\<close>

datatype 'v response =
    BadRequest
  | NotFound
  | ServerError
  | SearchNoMatch
  | SearchMatch "'v report option" rat
  | ExplanationUnavailable
  | Explanation "'v report option" string

definition truthyProp :: "docval property \<Rightarrow> bool" where
  "truthyProp p \<longleftrightarrow>
     (case p of Missing \<Rightarrow> False | Null \<Rightarrow> False | Value (DocPath path) \<Rightarrow> path \<noteq> []
      | Value ObjectConstructor \<Rightarrow> True)"

definition searchEndpoint ::
  "platform \<Rightarrow> 'v files \<Rightarrow> 'v state \<Rightarrow> string \<Rightarrow> 'v response \<times> 'v state" where
  "searchEndpoint P fs s query =
     (if query = [] then (BadRequest, s)
      else let s' = ensureReportsLoaded P fs s
           in case findBestReportMatch P (reportsCache s') query of
                None \<Rightarrow> (SearchNoMatch, s')
              | Some (report, score) \<Rightarrow> (SearchMatch (sanitizeReport (Some report)) score, s'))"

definition explainEndpoint ::
  "platform \<Rightarrow> 'v files \<Rightarrow> (string \<Rightarrow> string option) \<Rightarrow> 'v state \<Rightarrow> string \<Rightarrow> 'v response \<times> 'v state" where
  "explainEndpoint P fs readFile s slugParam =
     (let s' = ensureReportsLoaded P fs s;
          normalizedSlug = normalizeText P slugParam
      in case find (\<lambda>item. (case slug item of None \<Rightarrow> [] | Some sl \<Rightarrow> normalizeText P sl) = normalizedSlug)
                (reportsCache s') of
           None \<Rightarrow> (NotFound, s')
         | Some report \<Rightarrow>
             let (path, s'') =
                   (if truthyProp (explanationPath report)
                    then (case explanationPath report of Value v \<Rightarrow> Some v | _ \<Rightarrow> None, s')
                    else resolveExplanationPath P fs s' report)
             in if \<not> truthyVal path then (ExplanationUnavailable, s'')
                else (case path of
                        Some (DocPath file) \<Rightarrow>
                          (case readFile file of
                             Some markdown \<Rightarrow> (Explanation (sanitizeReport (Some report)) markdown, s'')
                           | None \<Rightarrow> (ServerError, s''))
                      | _ \<Rightarrow> (ServerError, s'')))"

section \<open>Example data\<close>

text \<open>The inputs of the specification's examples, and a few more of the same kind.\<close>

definition freshState :: "unit state" where
  "freshState = \<lparr>reportsCache = [], reportDocsIndex = None, sourceReads = 0\<rparr>"

definition tokenVaultReport :: "unit report" where
  "tokenVaultReport = emptyReport\<lparr>title := Some ''Reentrancy Attack in TokenVault''\<rparr>"

definition abcReport :: "unit report" where
  "abcReport = emptyReport\<lparr>title := Some ''abc''\<rparr>"

definition twentyReport :: "unit report" where
  "twentyReport = emptyReport\<lparr>title := Some ''abcdefghijklmnopqrst''\<rparr>"

definition exampleIndex :: docsIndex where
  "exampleIndex = [(''abcde'', ''/srv/data/reports/abcde.md'')]"

definition orgProjReport :: "unit report" where
  "orgProjReport = emptyReport\<lparr>github_repo := Some ''org/proj''\<rparr>"

definition slashReport :: "unit report" where
  "slashReport = emptyReport\<lparr>github_repo := Some ''/''\<rparr>"

definition pdfUrlReport :: "unit report" where
  "pdfUrlReport = emptyReport\<lparr>url := Some ''https://host/path/Report-Name.pdf''\<rparr>"

definition dotfileUrlReport :: "unit report" where
  "dotfileUrlReport = emptyReport\<lparr>url := Some ''https://host/.pdf''\<rparr>"

definition malformedUrlReport :: "unit report" where
  "malformedUrlReport = emptyReport\<lparr>url := Some ''not a url''\<rparr>"

definition missingFiles :: "unit files" where
  "missingFiles = \<lparr>reportsDir = ''/srv/data/reports'', directory = DirMissing, source = SourceMissing\<rparr>"

definition duplicateFiles :: "unit files" where
  "duplicateFiles =
     \<lparr>reportsDir = ''/srv/data/reports'', directory = DirMissing,
      source = SourceArray [Some (emptyReport\<lparr>title := Some ''Foo''\<rparr>),
                            Some (emptyReport\<lparr>title := Some ''Foo''\<rparr>), None]\<rparr>"

definition docsFiles :: "unit files" where
  "docsFiles =
     \<lparr>reportsDir = ''/srv/data/reports'', directory = DirEntries [''foo-bar.md''],
      source = SourceNotArray\<rparr>"

definition fooBarReport :: "unit report" where
  "fooBarReport = emptyReport\<lparr>slug := Some ''foo-bar''\<rparr>"

definition constructorReport :: "unit report" where
  "constructorReport = emptyReport\<lparr>title := Some ''Constructor'', github_repo := Some ''org/foo-bar''\<rparr>"

definition constructorFiles :: "unit files" where
  "constructorFiles =
     \<lparr>reportsDir = ''/srv/data/reports'', directory = DirEntries [''foo-bar.md''],
      source = SourceArray [Some constructorReport]\<rparr>"

definition blankTitleFiles :: "unit files" where
  "blankTitleFiles =
     \<lparr>reportsDir = ''/srv/data/reports'', directory = DirMissing,
      source = SourceArray [Some (emptyReport\<lparr>title := Some '' '', github_repo := Some ''org/repo''\<rparr>)]\<rparr>"


section \<open>The edit distance is the Levenshtein distance\<close>

text \<open>
  The recursive definition peels characters off the front, the rows of the program grow
  prefixes at the back. \<open>editDistance_snoc\<close> is the recurrence at the back; the row
  invariant is that cell \<open>j\<close> of the row finished for \<open>i\<close> holds the distance between the
  first \<open>i\<close> characters of \<open>a\<close> and the first \<open>j\<close> characters of \<open>b\<close>.
\<close>

lemma editDistance_Nil2 [simp]: "editDistance xs [] = length xs"
  by (cases xs) auto

lemma editDistance_sym: "editDistance xs ys = editDistance ys xs"
  by (induction xs ys rule: editDistance.induct) (auto simp: min.commute min.left_commute min.assoc)

lemma editDistance_same: "editDistance xs xs = 0"
  by (induction xs) auto

lemma min_shuffle:
  fixes a1 :: nat
  shows "min (min (min (min (a1 + 1) (a2 + 1)) (a3 + c) + 1) (min (min (b1 + 1) (b2 + 1)) (b3 + c) + 1))
             (min (min (c1 + 1) (c2 + 1)) (c3 + c) + d)
       = min (min (min (min (a1 + 1) (b1 + 1)) (c1 + d) + 1) (min (min (a2 + 1) (b2 + 1)) (c2 + d) + 1))
             (min (min (a3 + 1) (b3 + 1)) (c3 + d) + c)"
  by (simp only: min_add_distrib_left min_add_distrib_right min.assoc min.commute min.left_commute add.assoc add.commute add.left_commute)

lemma editDistance_single_snoc:
  "editDistance [x] (ys @ [y]) =
     min (min (editDistance [x] ys + 1) (length ys + 1 + 1)) (length ys + (if x = y then 0 else 1))"
proof (induction ys)
  case Nil
  show ?case by simp
next
  case (Cons y' ys')
  define c :: nat where "c = (if x = y then 0 else 1)"
  define d :: nat where "d = (if x = y' then 0 else 1)"
  have "editDistance [x] ((y' # ys') @ [y])
      = min (min (editDistance [x] (ys' @ [y]) + 1) (length ys' + 1 + 1 + 1)) (length ys' + 1 + d)"
    by (simp add: d_def)
  also have "editDistance [x] (ys' @ [y]) = min (min (editDistance [x] ys' + 1) (length ys' + 1 + 1)) (length ys' + c)"
    using Cons by (simp add: c_def)
  finally have L: "editDistance [x] ((y' # ys') @ [y])
      = min (min (min (min (editDistance [x] ys' + 1) (length ys' + 1 + 1)) (length ys' + c) + 1) (length ys' + 1 + 1 + 1)) (length ys' + 1 + d)" .
  have R: "min (min (editDistance [x] (y' # ys') + 1) (length (y' # ys') + 1 + 1)) (length (y' # ys') + (if x = y then 0 else 1))
     = min (min (min (min (editDistance [x] ys' + 1) (length ys' + 1 + 1)) (length ys' + d) + 1) (length ys' + 1 + 1 + 1)) (length ys' + 1 + c)"
    by (simp add: c_def d_def)
  show ?case unfolding L R
    by (simp only: min_add_distrib_left min_add_distrib_right min.assoc min.commute min.left_commute min.idem min.left_idem
          add.assoc add.commute add.left_commute)
qed

lemma editDistance_snoc:
  "editDistance (xs @ [x]) (ys @ [y]) =
     min (min (editDistance (xs @ [x]) ys + 1) (editDistance xs (ys @ [y]) + 1)) (editDistance xs ys + (if x = y then 0 else 1))"
proof (induction xs ys rule: editDistance.induct)
  case (1 ys)
  show ?case using editDistance_single_snoc[of x ys y] by simp
next
  case (2 v va)
  have "editDistance ((v # va) @ [x]) ([] @ [y]) = editDistance [y] ((v # va) @ [x])"
    by (simp only: append_Nil editDistance_sym[of _ "[y]"])
  also have "\<dots> = min (min (editDistance [y] (v # va) + 1) (length (v # va) + 1 + 1))
                         (length (v # va) + (if y = x then 0 else 1))"
    by (rule editDistance_single_snoc)
  also have "\<dots> = min (min (editDistance ((v # va) @ [x]) [] + 1) (editDistance (v # va) ([] @ [y]) + 1))
                         (editDistance (v # va) [] + (if x = y then 0 else 1))"
    by (simp add: editDistance_sym[of "[y]"] min.commute eq_commute[of x y])
  finally show ?case .
next
  case (3 x' xs y' ys)
  define c :: nat where "c = (if x = y then 0 else 1)"
  define d :: nat where "d = (if x' = y' then 0 else 1)"
  have L: "editDistance ((x' # xs) @ [x]) ((y' # ys) @ [y]) =
       min (min (editDistance ((x' # xs) @ [x]) (ys @ [y]) + 1) (editDistance (xs @ [x]) ((y' # ys) @ [y]) + 1))
           (editDistance (xs @ [x]) (ys @ [y]) + d)"
    by (simp add: d_def)
  have R1: "editDistance ((x' # xs) @ [x]) (y' # ys) =
       min (min (editDistance ((x' # xs) @ [x]) ys + 1) (editDistance (xs @ [x]) (y' # ys) + 1)) (editDistance (xs @ [x]) ys + d)"
    by (simp add: d_def)
  have R2: "editDistance (x' # xs) ((y' # ys) @ [y]) =
       min (min (editDistance (x' # xs) (ys @ [y]) + 1) (editDistance xs ((y' # ys) @ [y]) + 1)) (editDistance xs (ys @ [y]) + d)"
    by (simp add: d_def)
  have R3: "editDistance (x' # xs) (y' # ys) =
       min (min (editDistance (x' # xs) ys + 1) (editDistance xs (y' # ys) + 1)) (editDistance xs ys + d)"
    by (simp add: d_def)
  show ?case
    unfolding L "3.IH"(1) "3.IH"(2) "3.IH"(3) R1 R2 R3 c_def[symmetric]
    by (simp only: min_add_distrib_left min_add_distrib_right min.assoc min.commute min.left_commute
            add.assoc add.commute add.left_commute)
qed


lemma rowStep_cell:
  assumes i: "i < length a" and j: "j < length b"
    and prev: "previousRow = map (\<lambda>j. editDistance (take i a) (take j b)) [0..<length b + 1]"
    and cur: "currentRow = map (\<lambda>j. editDistance (take (i + 1) a) (take j b)) [0..<j + 1]"
  shows "rowStep a b previousRow i currentRow j
       = map (\<lambda>j. editDistance (take (i + 1) a) (take j b)) [0..<j + 1 + 1]"
proof -
  have c: "currentRow ! j = editDistance (take (i + 1) a) (take j b)"
    unfolding cur by (simp del: upt_Suc add: nth_map)
  have p1: "previousRow ! (j + 1) = editDistance (take i a) (take (j + 1) b)"
    unfolding prev using j by (simp del: upt_Suc add: nth_map)
  have p0: "previousRow ! j = editDistance (take i a) (take j b)"
    unfolding prev using j by (simp del: upt_Suc add: nth_map)
  have ta: "take (i + 1) a = take i a @ [a ! i]"
    using i by (simp add: take_Suc_conv_app_nth)
  have tb: "take (j + 1) b = take j b @ [b ! j]"
    using j by (simp add: take_Suc_conv_app_nth)
  have "editDistance (take (i + 1) a) (take (j + 1) b)
      = min (min (editDistance (take (i + 1) a) (take j b) + 1) (editDistance (take i a) (take (j + 1) b) + 1))
            (editDistance (take i a) (take j b) + (if a ! i = b ! j then 0 else 1))"
    unfolding tb unfolding ta by (rule editDistance_snoc)
  then have "rowStep a b previousRow i currentRow j
      = currentRow @ [editDistance (take (i + 1) a) (take (j + 1) b)]"
    by (simp only: rowStep_def Let_def c p1 p0)
  then show ?thesis
    unfolding cur by simp
qed

lemma buildRow_prefix:
  assumes i: "i < length a"
    and prev: "previousRow = map (\<lambda>j. editDistance (take i a) (take j b)) [0..<length b + 1]"
  shows "k \<le> length b \<Longrightarrow>
         fold (\<lambda>j currentRow. rowStep a b previousRow i currentRow j) [0..<k] [i + 1]
       = map (\<lambda>j. editDistance (take (i + 1) a) (take j b)) [0..<k + 1]"
proof (induction k)
  case 0
  show ?case using i by simp
next
  case (Suc k)
  then have IH: "fold (\<lambda>j currentRow. rowStep a b previousRow i currentRow j) [0..<k] [i + 1]
       = map (\<lambda>j. editDistance (take (i + 1) a) (take j b)) [0..<k + 1]" and k: "k < length b"
    by simp_all
  have "fold (\<lambda>j currentRow. rowStep a b previousRow i currentRow j) [0..<Suc k] [i + 1]
      = rowStep a b previousRow i (map (\<lambda>j. editDistance (take (i + 1) a) (take j b)) [0..<k + 1]) k"
    by (simp only: upt_Suc_append[OF le0] fold_append fold.simps o_apply id_apply IH)
  also have "\<dots> = map (\<lambda>j. editDistance (take (i + 1) a) (take j b)) [0..<k + 1 + 1]"
    by (rule rowStep_cell[OF i k prev refl])
  finally show ?case by simp
qed

lemma buildRow_row:
  assumes "i < length a"
    and "previousRow = map (\<lambda>j. editDistance (take i a) (take j b)) [0..<length b + 1]"
  shows "buildRow a b previousRow i = map (\<lambda>j. editDistance (take (i + 1) a) (take j b)) [0..<length b + 1]"
  unfolding buildRow_def by (rule buildRow_prefix[OF assms order_refl])

lemma copyRow_prefix:
  "k \<le> length currentRow \<Longrightarrow> length previousRow = length currentRow \<Longrightarrow>
   fold (\<lambda>j row. row[j := currentRow ! j]) [0..<k] previousRow = take k currentRow @ drop k previousRow"
proof (induction k)
  case 0
  show ?case by simp
next
  case (Suc k)
  then have k: "k < length currentRow" and IH: "fold (\<lambda>j row. row[j := currentRow ! j]) [0..<k] previousRow = take k currentRow @ drop k previousRow"
    by simp_all
  have "fold (\<lambda>j row. row[j := currentRow ! j]) [0..<Suc k] previousRow
      = (take k currentRow @ drop k previousRow)[k := currentRow ! k]"
    by (simp only: upt_Suc_append[OF le0] fold_append fold.simps o_apply id_apply IH)
  also have "\<dots> = take k currentRow @ (drop k previousRow)[0 := currentRow ! k]"
    using k by (simp add: list_update_append)
  also have "\<dots> = take k currentRow @ currentRow ! k # drop (Suc k) previousRow"
    using k Suc.prems(2) by (simp add: Cons_nth_drop_Suc[symmetric])
  also have "\<dots> = take (Suc k) currentRow @ drop (Suc k) previousRow"
    using k by (simp add: take_Suc_conv_app_nth)
  finally show ?case .
qed

lemma copyRow_all:
  "length currentRow = n + 1 \<Longrightarrow> length previousRow = n + 1 \<Longrightarrow> copyRow currentRow previousRow n = currentRow"
  unfolding copyRow_def using copyRow_prefix[of "n + 1" currentRow previousRow] by simp

lemma rows_fold:
  "k \<le> length a \<Longrightarrow>
   fold (\<lambda>i previousRow. copyRow (buildRow a b previousRow i) previousRow (length b)) [0..<k] [0..<length b + 1]
   = map (\<lambda>j. editDistance (take k a) (take j b)) [0..<length b + 1]"
proof (induction k)
  case 0
  have "map (\<lambda>j. editDistance (take 0 a) (take j b)) [0..<length b + 1] = map (\<lambda>j. j) [0..<length b + 1]"
    by (rule map_cong) (auto simp del: upt_Suc)
  then show ?case by simp
next
  case (Suc k)
  then have k: "k < length a"
    and IH: "fold (\<lambda>i previousRow. copyRow (buildRow a b previousRow i) previousRow (length b)) [0..<k] [0..<length b + 1]
               = map (\<lambda>j. editDistance (take k a) (take j b)) [0..<length b + 1]"
    by simp_all
  let ?prev = "map (\<lambda>j. editDistance (take k a) (take j b)) [0..<length b + 1]"
  have row: "buildRow a b ?prev k = map (\<lambda>j. editDistance (take (k + 1) a) (take j b)) [0..<length b + 1]"
    by (rule buildRow_row[OF k refl])
  have "fold (\<lambda>i previousRow. copyRow (buildRow a b previousRow i) previousRow (length b)) [0..<Suc k] [0..<length b + 1]
      = copyRow (buildRow a b ?prev k) ?prev (length b)"
    by (simp only: upt_Suc_append[OF le0] fold_append fold.simps o_apply id_apply IH)
  also have "\<dots> = buildRow a b ?prev k"
    by (rule copyRow_all) (simp_all only: row length_map length_upt diff_zero)
  finally show ?case using row by simp
qed

lemma levenshteinDistance_editDistance: "levenshteinDistance a b = editDistance a b"
proof -
  have "fold (\<lambda>i previousRow. copyRow (buildRow a b previousRow i) previousRow (length b)) [0..<length a] [0..<length b + 1] ! length b
      = editDistance a b"
    by (simp only: rows_fold[OF order_refl]) (simp del: upt_Suc add: nth_map)
  then show ?thesis
    by (auto simp: levenshteinDistance_def Let_def editDistance_same)
qed

text \<open>
  C1. For all strings \<open>a\<close> and \<open>b\<close>, \<open>levenshteinDistance a b\<close> is the Levenshtein edit
  distance of the recursive reference definition; the distance of a string to itself is 0,
  the distance is symmetric, the distance between the empty string and \<open>s\<close> is the length of
  \<open>s\<close>, and the distance between the empty string and \<open>abc\<close> is 3.
\<close>

theorem levenshteinDistance_correct:
  "levenshteinDistance a b = editDistance a b
   \<and> levenshteinDistance a a = 0
   \<and> levenshteinDistance a b = levenshteinDistance b a
   \<and> levenshteinDistance [] s = length s
   \<and> levenshteinDistance s [] = length s
   \<and> levenshteinDistance '''' ''abc'' = 3"
  by (simp add: levenshteinDistance_editDistance editDistance_same editDistance_sym[of a b])

section \<open>Rounding\<close>

text \<open>
  What the proofs need of \<open>roundToDouble\<close>: a positive number and its rounding lie in the
  same binade, so rounding keeps \<open>[0, 1]\<close>, and a quotient that exceeds 1 by more than half
  a unit in the last place of 1 rounds above 1.
\<close>

lemma bitLength_nonneg: "0 \<le> bitLength n"
proof (induction n rule: bitLength.induct)
  case (1 n)
  then show ?case by (cases "n \<le> 0") (simp_all add: bitLength.simps[of n])
qed

lemma bitLength_pos: "0 < n \<Longrightarrow> 0 < bitLength n"
  using bitLength_nonneg[of "n div 2"] by (simp add: bitLength.simps[of n])

lemma bitLength_bounds:
  "0 < n \<Longrightarrow> 2 ^ nat (bitLength n - 1) \<le> n \<and> n < 2 ^ nat (bitLength n)"
proof (induction n rule: bitLength.induct)
  case (1 n)
  show ?case
  proof (cases "n = 1")
    case True
    then show ?thesis by (simp add: bitLength.simps[of 1] bitLength.simps[of 0])
  next
    case False
    with "1.prems" have h: "0 < n div 2" by simp
    from "1.IH" "1.prems" h
    have IH: "2 ^ nat (bitLength (n div 2) - 1) \<le> n div 2" "n div 2 < 2 ^ nat (bitLength (n div 2))"
      by simp_all
    have bl: "bitLength n = 1 + bitLength (n div 2)"
      using "1.prems" by (simp add: bitLength.simps[of n])
    have p: "0 < bitLength (n div 2)" using h by (rule bitLength_pos)
    have e1: "nat (bitLength n - 1) = Suc (nat (bitLength (n div 2) - 1))"
      using p bl by simp
    have e2: "nat (bitLength n) = Suc (nat (bitLength (n div 2)))"
      using p bl by simp
    have "2 * 2 ^ nat (bitLength (n div 2) - 1) \<le> 2 * (n div 2)" using IH(1) by simp
    also have "\<dots> \<le> n" by simp
    finally have a: "2 ^ nat (bitLength n - 1) \<le> n" unfolding e1 by simp
    have "n < 2 * (n div 2) + 2" by presburger
    also have "\<dots> \<le> 2 * 2 ^ nat (bitLength (n div 2))" using IH(2) by simp
    finally have b: "n < 2 ^ nat (bitLength n)" unfolding e2 by simp
    from a b show ?thesis ..
  qed
qed

lemma pow2_powi: "pow2 k = 2 powi k"
  by (simp add: pow2_def power_int_def field_simps)

lemma pow2_pos: "0 < pow2 k"
  by (simp add: pow2_powi)

lemma pow2_add: "pow2 (a + b) = pow2 a * pow2 b"
  by (simp add: pow2_powi power_int_add)

lemma pow2_mono: "a \<le> b \<Longrightarrow> pow2 a \<le> pow2 b"
  by (simp add: pow2_powi power_int_increasing)

lemma pow2_nat: "pow2 (int n) = 2 ^ n"
  by (simp add: pow2_def)

lemma binaryExponent_bounds:
  assumes "0 < x"
  shows "pow2 (binaryExponent x) \<le> x \<and> x < pow2 (binaryExponent x + 1)"
proof -
  obtain p q where pq: "quotient_of x = (p, q)" by (cases "quotient_of x")
  have q: "0 < q" using pq by (rule quotient_of_denom_pos)
  have x: "x = of_int p / of_int q" using pq by (rule quotient_of_div)
  have p: "0 < p" using assms q unfolding x by (simp add: zero_less_divide_iff)
  define k where "k = bitLength p - bitLength q"
  note bp = bitLength_bounds[OF p] and bq = bitLength_bounds[OF q]
  have lp: "0 < bitLength p" and lq: "0 < bitLength q"
    using p q by (simp_all add: bitLength_pos)
  have P1: "pow2 (bitLength p - 1) \<le> of_int p"
  proof -
    have "(of_int (2 ^ nat (bitLength p - 1)) :: rat) \<le> of_int p" using bp by (simp only: of_int_le_iff)
    then show ?thesis using lp by (simp add: pow2_def)
  qed
  have P2: "of_int p < pow2 (bitLength p)"
  proof -
    have "(of_int p :: rat) < of_int (2 ^ nat (bitLength p))" using bp by (simp only: of_int_less_iff)
    then show ?thesis using lp by (simp add: pow2_def)
  qed
  have Q1: "pow2 (bitLength q - 1) \<le> of_int q"
  proof -
    have "(of_int (2 ^ nat (bitLength q - 1)) :: rat) \<le> of_int q" using bq by (simp only: of_int_le_iff)
    then show ?thesis using lq by (simp add: pow2_def)
  qed
  have Q2: "of_int q < pow2 (bitLength q)"
  proof -
    have "(of_int q :: rat) < of_int (2 ^ nat (bitLength q))" using bq by (simp only: of_int_less_iff)
    then show ?thesis using lq by (simp add: pow2_def)
  qed
  have qr: "(0::rat) < of_int q" using q by simp
  have up: "x < pow2 (k + 1)"
  proof -
    have "pow2 (k + 1) * pow2 (bitLength q - 1) = pow2 (bitLength p)"
      unfolding pow2_add[symmetric] k_def by simp
    then have "of_int p < pow2 (k + 1) * pow2 (bitLength q - 1)" using P2 by simp
    also have "\<dots> \<le> pow2 (k + 1) * of_int q"
      using Q1 pow2_pos[of "k + 1"] by (simp add: mult_left_mono)
    finally show ?thesis unfolding x using qr by (simp add: pos_divide_less_eq)
  qed
  have lo: "pow2 (k - 1) < x"
  proof -
    have e: "pow2 (k - 1) * pow2 (bitLength q) = pow2 (bitLength p - 1)"
      unfolding pow2_add[symmetric] k_def by simp
    have "pow2 (k - 1) * of_int q < pow2 (k - 1) * pow2 (bitLength q)"
      using Q2 pow2_pos[of "k - 1"] by (simp add: mult_strict_left_mono)
    also have "\<dots> \<le> of_int p" unfolding e by (rule P1)
    finally show ?thesis unfolding x using qr by (simp add: pos_less_divide_eq)
  qed
  have be: "binaryExponent x = (if pow2 k \<le> x then k else k - 1)"
    by (simp add: binaryExponent_def pq k_def Let_def)
  show ?thesis
  proof (cases "pow2 k \<le> x")
    case True
    then show ?thesis using up be by simp
  next
    case False
    then show ?thesis using lo be by simp
  qed
qed

lemma roundTiesEven_ge: "of_int n \<le> z \<Longrightarrow> n \<le> roundTiesEven z"
proof -
  assume "of_int n \<le> z"
  then have "n \<le> \<lfloor>z\<rfloor>" by (simp add: le_floor_iff)
  then show ?thesis by (simp add: roundTiesEven_def Let_def)
qed

lemma roundTiesEven_le: "z \<le> of_int n \<Longrightarrow> roundTiesEven z \<le> n"
proof -
  assume h: "z \<le> of_int n"
  show ?thesis
  proof (cases "z = of_int n")
    case True
    then show ?thesis by (simp add: roundTiesEven_def Let_def)
  next
    case False
    with h have "z < of_int n" by simp
    then have "\<lfloor>z\<rfloor> < n" by (simp add: floor_less_iff)
    then show ?thesis by (simp add: roundTiesEven_def Let_def)
  qed
qed

lemma roundTiesEven_gt_half: "of_int n + 1 / 2 < z \<Longrightarrow> n + 1 \<le> roundTiesEven z"
proof -
  assume h: "of_int n + 1 / 2 < z"
  have f: "n \<le> \<lfloor>z\<rfloor>" using h by (simp add: le_floor_iff)
  show ?thesis
  proof (cases "n + 1 \<le> \<lfloor>z\<rfloor>")
    case True
    then show ?thesis by (simp add: roundTiesEven_def Let_def)
  next
    case False
    with f have e: "\<lfloor>z\<rfloor> = n" by simp
    then have "1 / 2 < z - of_int \<lfloor>z\<rfloor>" using h by simp
    then show ?thesis using e by (simp add: roundTiesEven_def Let_def)
  qed
qed

lemma roundToDouble_pos_eq:
  "0 < x \<Longrightarrow> roundToDouble x
     = of_int (roundTiesEven (x / pow2 (binaryExponent x - 52))) * pow2 (binaryExponent x - 52)"
  by (simp add: roundToDouble_def Let_def)

lemma roundToDouble_bounds:
  assumes "0 < x"
  shows "pow2 (binaryExponent x) \<le> roundToDouble x \<and> roundToDouble x \<le> pow2 (binaryExponent x + 1)"
proof -
  define e where "e = binaryExponent x"
  define u where "u = pow2 (e - 52)"
  have u: "0 < u" unfolding u_def by (rule pow2_pos)
  from binaryExponent_bounds[OF assms] have b: "pow2 e \<le> x" "x < pow2 (e + 1)"
    unfolding e_def by simp_all
  have e1: "pow2 e = 2 ^ 52 * u" 
  proof -
    have "e = 52 + (e - 52)" by simp
    then have "pow2 e = pow2 (52 + (e - 52))" by (rule arg_cong)
    also have "\<dots> = pow2 52 * u" unfolding u_def by (rule pow2_add)
    finally show ?thesis using pow2_nat[of 52] by simp
  qed
  have e2: "pow2 (e + 1) = 2 ^ 53 * u"
  proof -
    have "e + 1 = 53 + (e - 52)" by simp
    then have "pow2 (e + 1) = pow2 (53 + (e - 52))" by (rule arg_cong)
    also have "\<dots> = pow2 53 * u" unfolding u_def by (rule pow2_add)
    finally show ?thesis using pow2_nat[of 53] by simp
  qed
  have "of_int (2 ^ 52) \<le> x / u" using b(1) u unfolding e1 by (simp add: pos_le_divide_eq)
  then have lo: "2 ^ 52 \<le> roundTiesEven (x / u)" by (rule roundTiesEven_ge)
  have "x / u \<le> of_int (2 ^ 53)" using b(2) u unfolding e2 by (simp add: pos_divide_le_eq)
  then have hi: "roundTiesEven (x / u) \<le> 2 ^ 53" by (rule roundTiesEven_le)
  have r: "roundToDouble x = of_int (roundTiesEven (x / u)) * u"
    using roundToDouble_pos_eq[OF assms] unfolding u_def e_def .
  have "(of_int (2 ^ 52) :: rat) \<le> of_int (roundTiesEven (x / u))" using lo by (simp only: of_int_le_iff)
  then have A: "pow2 e \<le> roundToDouble x" unfolding r e1 using u by (simp add: mult_right_mono)
  have "(of_int (roundTiesEven (x / u)) :: rat) \<le> of_int (2 ^ 53)" using hi by (simp only: of_int_le_iff)
  then have B: "roundToDouble x \<le> pow2 (e + 1)" unfolding r e2 using u by (simp add: mult_right_mono)
  from A B show ?thesis unfolding e_def ..
qed

lemma roundToDouble_nonneg: "0 \<le> x \<Longrightarrow> 0 \<le> roundToDouble x"
proof (cases "x = 0")
  case True
  then show ?thesis by (simp add: roundToDouble_def)
next
  case False
  assume "0 \<le> x"
  with False have x: "0 < x" by simp
  have "0 < pow2 (binaryExponent x)" by (rule pow2_pos)
  with roundToDouble_bounds[OF x] show ?thesis by simp
qed

lemma roundToDouble_le_one:
  assumes "0 \<le> x" "x \<le> 1"
  shows "roundToDouble x \<le> 1"
proof (cases "x = 0 \<or> x = 1")
  case True
  then show ?thesis
  proof
    assume "x = 0" then show ?thesis by (simp add: roundToDouble_def)
  next
    assume "x = 1"
    have "roundToDouble 1 = 1" by code_simp
    with \<open>x = 1\<close> show ?thesis by simp
  qed
next
  case False
  with assms have x: "0 < x" "x < 1" by simp_all
  from binaryExponent_bounds[OF x(1)] x(2) have "pow2 (binaryExponent x) < pow2 0"
    by (simp add: pow2_def)
  then have "binaryExponent x < 0"
    using pow2_mono[of 0 "binaryExponent x"] by (cases "0 \<le> binaryExponent x") auto
  then have "pow2 (binaryExponent x + 1) \<le> pow2 0" by (intro pow2_mono) simp
  with roundToDouble_bounds[OF x(1)] show ?thesis by (simp add: pow2_def)
qed

lemma roundToDouble_gt_one:
  assumes "1 + 1 / 2 ^ 53 < x"
  shows "1 < roundToDouble x"
proof -
  have "(1::rat) < 1 + 1 / 2 ^ 53" by simp
  with assms have x1: "1 < x" by linarith
  then have x: "0 < x" by linarith
  define e where "e = binaryExponent x"
  from binaryExponent_bounds[OF x] have b: "pow2 e \<le> x" "x < pow2 (e + 1)"
    unfolding e_def by simp_all
  have e0: "0 \<le> e"
  proof (rule ccontr)
    assume "\<not> 0 \<le> e"
    then have "pow2 (e + 1) \<le> pow2 0" by (intro pow2_mono) simp
    with b(2) x1 show False by (simp add: pow2_def)
  qed
  show ?thesis
  proof (cases "e = 0")
    case True
    have r: "roundToDouble x = of_int (roundTiesEven (x / pow2 (- 52))) * pow2 (- 52)"
      using roundToDouble_pos_eq[OF x] unfolding e_def[symmetric] True by simp
    have p: "pow2 (- 52) = 1 / 2 ^ 52" by (simp add: pow2_def)
    have "of_int (2 ^ 52) + 1 / 2 < x * 2 ^ 52"
    proof -
      have "(1 + 1 / 2 ^ 53) * 2 ^ 52 < x * 2 ^ 52" using assms by (simp only: mult_less_cancel_right_pos zero_less_power zero_less_numeral)
      then show ?thesis by (simp add: field_simps)
    qed
    then have "2 ^ 52 + 1 \<le> roundTiesEven (x * 2 ^ 52)" by (rule roundTiesEven_gt_half)
    then have "(of_int (2 ^ 52 + 1) :: rat) \<le> of_int (roundTiesEven (x * 2 ^ 52))" by (simp only: of_int_le_iff)
    then have "(2 ^ 52 + 1) / 2 ^ 52 \<le> roundToDouble x" unfolding r p by (simp add: field_simps)
    moreover have "(1::rat) < (2 ^ 52 + 1) / 2 ^ 52" by simp
    ultimately show ?thesis by (rule less_le_trans[rotated])
  next
    case False
    with e0 have "1 \<le> e" by simp
    then have "pow2 1 \<le> pow2 e" by (rule pow2_mono)
    with roundToDouble_bounds[OF x] show ?thesis unfolding e_def[symmetric] by (simp add: pow2_def)
  qed
qed

lemma numDiv_gt_one:
  assumes "d < n" "0 < d" "n < 2 ^ 53"
  shows "1 < numDiv (of_nat n) (of_nat d)"
proof -
  have dn: "d + 1 \<le> n" using assms(1) by simp
  have d53: "(of_nat d :: rat) < 2 ^ 53"
  proof -
    have "d < 2 ^ 53" using assms(1,3) by simp
    then have "(of_nat d :: rat) < of_nat (2 ^ 53)" by (simp only: of_nat_less_iff)
    then show ?thesis by simp
  qed
  have dpos: "(0::rat) < of_nat d" using assms(2) by simp
  have "(1::rat) / 2 ^ 53 < 1 / of_nat d"
    using d53 dpos by (simp add: frac_less2)
  then have "1 + (1::rat) / 2 ^ 53 < 1 + 1 / of_nat d" by simp
  also have "\<dots> = (of_nat d + 1) / of_nat d" using dpos by (simp add: field_simps)
  also have "\<dots> \<le> of_nat n / of_nat d"
  proof -
    have "(of_nat (d + 1) :: rat) \<le> of_nat n" using dn by (simp only: of_nat_le_iff)
    then show ?thesis using dpos by (simp add: divide_right_mono)
  qed
  finally show ?thesis unfolding numDiv_def by (rule roundToDouble_gt_one)
qed

lemma similarityOf_bounds:
  assumes "d \<le> m" "0 < m"
  shows "0 \<le> similarityOf d m \<and> similarityOf d m \<le> 1"
proof -
  define q where "q = numDiv (of_nat d) (of_nat m)"
  have mpos: "(0::rat) < of_nat m" using assms(2) by simp
  have r0: "(0::rat) \<le> of_nat d / of_nat m" by simp
  have r1: "(of_nat d :: rat) / of_nat m \<le> 1"
  proof -
    have "(of_nat d :: rat) \<le> of_nat m" using assms(1) by (simp only: of_nat_le_iff)
    then show ?thesis using mpos by (simp add: pos_divide_le_eq)
  qed
  have q0: "0 \<le> q" unfolding q_def numDiv_def using r0 by (rule roundToDouble_nonneg)
  have q1: "q \<le> 1" unfolding q_def numDiv_def using r0 r1 by (rule roundToDouble_le_one)
  have "0 \<le> roundToDouble (1 - q)" using q1 by (intro roundToDouble_nonneg) simp
  moreover have "roundToDouble (1 - q) \<le> 1" using q0 q1 by (intro roundToDouble_le_one) simp_all
  ultimately show ?thesis unfolding similarityOf_def numSub_def q_def by simp
qed

lemma editDistance_le_max: "editDistance xs ys \<le> max (length xs) (length ys)"
proof (induction xs ys rule: editDistance.induct)
  case (1 ys)
  show ?case by simp
next
  case (2 x xs)
  show ?case by simp
next
  case (3 x xs y ys)
  have "editDistance (x # xs) (y # ys) \<le> editDistance xs ys + (if x = y then 0 else 1)"
    by simp
  also have "\<dots> \<le> max (length xs) (length ys) + 1"
    using "3.IH"(3) by simp
  finally show ?case by simp
qed

lemma similarity_bounds: "0 \<le> similarity a b \<and> similarity a b \<le> 1"
proof -
  have "levenshteinDistance a b \<le> max (max (length a) (length b)) 1"
    using editDistance_le_max[of a b] by (simp add: levenshteinDistance_editDistance)
  then show ?thesis
    unfolding similarity_def Let_def by (intro similarityOf_bounds) simp_all
qed

section \<open>ASCII strings\<close>

lemma charCode_asciiLower: "charCode c < 128 \<Longrightarrow> charCode (asciiLower c) < 128"
  by (auto simp: asciiLower_def charCode_def split: if_splits)

lemma normalizeText_ascii:
  assumes "asciiFaithful P" "\<forall>c \<in> set s. charCode c < 128"
  shows "normalizeText P s = filter isLowerAlnum (map asciiLower s)"
proof -
  have l: "toLowerCase P s = map asciiLower s"
    using assms by (simp add: asciiFaithful_def)
  have "\<forall>c \<in> set (map asciiLower s). charCode c < 128"
    using assms(2) by (auto simp: charCode_asciiLower)
  then have n: "normalizeNFKD P (map asciiLower s) = map asciiLower s"
    using assms(1) by (simp add: asciiFaithful_def)
  show ?thesis by (cases "s = []") (simp_all add: normalizeText_def l n)
qed

lemma createSlug_ascii:
  assumes "asciiFaithful P" "\<forall>c \<in> set s. charCode c < 128"
  shows "createSlug P s = trimHyphens (hyphenateRuns False (map asciiLower s))"
proof -
  have l: "toLowerCase P s = map asciiLower s"
    using assms by (simp add: asciiFaithful_def)
  have "\<forall>c \<in> set (map asciiLower s). charCode c < 128"
    using assms(2) by (auto simp: charCode_asciiLower)
  then have n: "normalizeNFKD P (map asciiLower s) = map asciiLower s"
    using assms(1) by (simp add: asciiFaithful_def)
  show ?thesis by (simp add: createSlug_def l n)
qed

lemma asciiFaithful_asciiPlatform: "asciiFaithful asciiPlatform"
  by (simp add: asciiFaithful_def asciiPlatform_def)

section \<open>Query matching\<close>

lemma stringIncludes_iff: "stringIncludes s t \<longleftrightarrow> (\<exists>ps ss. s = ps @ t @ ss)"
proof (induction s)
  case Nil
  show ?case by auto
next
  case (Cons c cs)
  show ?case
  proof
    assume "stringIncludes (c # cs) t"
    then consider "prefix t (c # cs)" | "stringIncludes cs t" by auto
    then show "\<exists>ps ss. c # cs = ps @ t @ ss"
    proof cases
      case 1
      then obtain ss where "c # cs = t @ ss" by (auto simp: prefix_def)
      then have "c # cs = [] @ t @ ss" by simp
      then show ?thesis by blast
    next
      case 2
      with Cons obtain ps ss where "cs = ps @ t @ ss" by blast
      then have "c # cs = (c # ps) @ t @ ss" by simp
      then show ?thesis by blast
    qed
  next
    assume "\<exists>ps ss. c # cs = ps @ t @ ss"
    then obtain ps ss where e: "c # cs = ps @ t @ ss" by blast
    show "stringIncludes (c # cs) t"
    proof (cases ps)
      case Nil
      with e have "prefix t (c # cs)" by (simp add: prefix_def)
      then show ?thesis by simp
    next
      case (Cons p ps')
      with e have "cs = ps' @ t @ ss" by simp
      then have "stringIncludes cs t" using Cons.IH by blast
      then show ?thesis by simp
    qed
  qed
qed

lemma stringIncludes_length:
  assumes "stringIncludes s t" "t \<noteq> s"
  shows "length t < length s"
proof -
  from assms(1) obtain ps ss where e: "s = ps @ t @ ss" by (auto simp: stringIncludes_iff)
  with assms(2) have "ps \<noteq> [] \<or> ss \<noteq> []" by auto
  with e show ?thesis by auto
qed

lemma scoreCandidate_keeps:
  assumes "\<exists>r s. best = Some (r, s) \<and> x \<le> s"
  shows "\<exists>r s. scoreCandidate nq rep c best = Some (r, s) \<and> x \<le> s"
  using assms by (auto simp: scoreCandidate_def exceeds_def)

lemma scoreCandidate_hit:
  assumes "c \<noteq> []"
  shows "\<exists>r s. scoreCandidate nq rep c best = Some (r, s) \<and> candidateScore nq c \<le> s"
  using assms by (cases best) (auto simp: scoreCandidate_def exceeds_def)

lemma fold_scoreCandidate_keeps:
  "\<exists>r s. best = Some (r, s) \<and> x \<le> s \<Longrightarrow>
   \<exists>r s. fold (scoreCandidate nq rep) cs best = Some (r, s) \<and> x \<le> s"
proof (induction cs arbitrary: best)
  case Nil
  then show ?case by simp
next
  case (Cons c cs)
  from scoreCandidate_keeps[OF Cons.prems] Cons.IH show ?case by simp
qed

lemma fold_scoreCandidate_hit:
  "c \<in> set cs \<Longrightarrow> c \<noteq> [] \<Longrightarrow>
   \<exists>r s. fold (scoreCandidate nq rep) cs best = Some (r, s) \<and> candidateScore nq c \<le> s"
proof (induction cs arbitrary: best)
  case Nil
  then show ?case by simp
next
  case (Cons c' cs)
  show ?case
  proof (cases "c = c'")
    case True
    from scoreCandidate_hit[OF Cons.prems(2), of nq rep best]
    have "\<exists>r s. scoreCandidate nq rep c' best = Some (r, s) \<and> candidateScore nq c \<le> s"
      using True by simp
    from fold_scoreCandidate_keeps[OF this] show ?thesis by simp
  next
    case False
    with Cons.prems have "c \<in> set cs" by simp
    from Cons.IH[OF this Cons.prems(2)] show ?thesis by simp
  qed
qed

lemma fold_reports_keeps:
  "\<exists>r s. best = Some (r, s) \<and> x \<le> s \<Longrightarrow>
   \<exists>r s. fold (\<lambda>report best. fold (scoreCandidate nq report) (comparisonStrings P report) best) cache best
           = Some (r, s) \<and> x \<le> s"
proof (induction cache arbitrary: best)
  case Nil
  then show ?case by simp
next
  case (Cons rep cache)
  from fold_scoreCandidate_keeps[OF Cons.prems] Cons.IH show ?case by simp
qed

lemma fold_reports_hit:
  "rep \<in> set cache \<Longrightarrow> c \<in> set (comparisonStrings P rep) \<Longrightarrow> c \<noteq> [] \<Longrightarrow>
   \<exists>r s. fold (\<lambda>report best. fold (scoreCandidate nq report) (comparisonStrings P report) best) cache best
           = Some (r, s) \<and> candidateScore nq c \<le> s"
proof (induction cache arbitrary: best)
  case Nil
  then show ?case by simp
next
  case (Cons rep' cache)
  show ?case
  proof (cases "rep = rep'")
    case True
    from fold_scoreCandidate_hit[OF Cons.prems(2,3), of nq rep best]
    have "\<exists>r s. fold (scoreCandidate nq rep') (comparisonStrings P rep') best = Some (r, s)
            \<and> candidateScore nq c \<le> s"
      using True by simp
    from fold_reports_keeps[OF this] show ?thesis by simp
  next
    case False
    with Cons.prems have "rep \<in> set cache" by simp
    from Cons.IH[OF this Cons.prems(2,3)] show ?thesis by simp
  qed
qed

lemma scanReports_dominates:
  "rep \<in> set cache \<Longrightarrow> c \<in> set (comparisonStrings P rep) \<Longrightarrow> c \<noteq> [] \<Longrightarrow>
   \<exists>r s. scanReports P cache nq = Some (r, s) \<and> candidateScore nq c \<le> s"
  unfolding scanReports_def by (rule fold_reports_hit)

lemma scoreCandidate_attained:
  assumes "best = None \<or> (\<exists>r c. best = Some (r, candidateScore nq c) \<and> c \<noteq> [] \<and> Q r c)"
    and "Q rep c'"
  shows "scoreCandidate nq rep c' best = None
         \<or> (\<exists>r c. scoreCandidate nq rep c' best = Some (r, candidateScore nq c) \<and> c \<noteq> [] \<and> Q r c)"
  using assms by (auto simp: scoreCandidate_def)

lemma fold_scoreCandidate_attained:
  "best = None \<or> (\<exists>r c. best = Some (r, candidateScore nq c) \<and> c \<noteq> [] \<and> Q r c) \<Longrightarrow>
   \<forall>c' \<in> set cs. Q rep c' \<Longrightarrow>
   fold (scoreCandidate nq rep) cs best = None
     \<or> (\<exists>r c. fold (scoreCandidate nq rep) cs best = Some (r, candidateScore nq c) \<and> c \<noteq> [] \<and> Q r c)"
proof (induction cs arbitrary: best)
  case Nil
  then show ?case by simp
next
  case (Cons c' cs)
  have q: "Q rep c'" using Cons.prems(2) by simp
  have rest: "\<forall>c' \<in> set cs. Q rep c'" using Cons.prems(2) by simp
  from Cons.IH[OF scoreCandidate_attained[OF Cons.prems(1) q] rest] show ?case by simp
qed

lemma fold_reports_attained:
  "best = None \<or> (\<exists>r c. best = Some (r, candidateScore nq c) \<and> c \<noteq> [] \<and> Q r c) \<Longrightarrow>
   \<forall>rep \<in> set cache. \<forall>c' \<in> set (comparisonStrings P rep). Q rep c' \<Longrightarrow>
   fold (\<lambda>report best. fold (scoreCandidate nq report) (comparisonStrings P report) best) cache best = None
     \<or> (\<exists>r c. fold (\<lambda>report best. fold (scoreCandidate nq report) (comparisonStrings P report) best) cache best
                  = Some (r, candidateScore nq c) \<and> c \<noteq> [] \<and> Q r c)"
proof (induction cache arbitrary: best)
  case Nil
  then show ?case by simp
next
  case (Cons rep cache)
  have q: "\<forall>c' \<in> set (comparisonStrings P rep). Q rep c'" using Cons.prems(2) by simp
  have rest: "\<forall>rep \<in> set cache. \<forall>c' \<in> set (comparisonStrings P rep). Q rep c'"
    using Cons.prems(2) by simp
  from Cons.IH[OF fold_scoreCandidate_attained[OF Cons.prems(1) q] rest] show ?case by simp
qed

lemma scanReports_attained:
  assumes "scanReports P cache nq = Some (r, s)"
  shows "r \<in> set cache \<and> (\<exists>c \<in> set (comparisonStrings P r). c \<noteq> [] \<and> s = candidateScore nq c)"
proof -
  have "scanReports P cache nq = None
     \<or> (\<exists>r c. scanReports P cache nq = Some (r, candidateScore nq c) \<and> c \<noteq> []
            \<and> (r \<in> set cache \<and> c \<in> set (comparisonStrings P r)))"
    unfolding scanReports_def
    by (rule fold_reports_attained[where Q = "\<lambda>r c. r \<in> set cache \<and> c \<in> set (comparisonStrings P r)"]) simp_all
  with assms show ?thesis by auto
qed

lemma findBestReportMatch_cutoff:
  "findBestReportMatch P cache query = Some (r, s) \<Longrightarrow> double_0_45 \<le> s"
  by (auto simp: findBestReportMatch_def Let_def split: if_splits option.splits)

lemma double_0_45_le_one: "double_0_45 \<le> 1"
  by code_simp

text \<open>
  C10. The score of a match is not bounded by 1. Whenever the normalized query properly
  contains a non-empty comparison string of a cached report (and is shorter than \<open>2\<^sup>5\<^sup>3\<close>
  code units, as every JavaScript string is), \<open>findBestReportMatch\<close> returns a match whose
  score is greater than 1; the score is the quotient \<open>len(normalizedQuery) / len(c)\<close> of the
  winning comparison string \<open>c\<close>, and it is at least the quotient of the given pairing.
  The similarity measure, in contrast, always lies in \<open>[0, 1]\<close>.
\<close>

theorem score_above_one:
  assumes "report \<in> set cache" and "candidate \<in> set (comparisonStrings P report)"
    and "candidate \<noteq> []" and "stringIncludes (normalizeText P query) candidate"
    and "candidate \<noteq> normalizeText P query" and "length (normalizeText P query) < 2 ^ 53"
  shows "(\<exists>r s c. findBestReportMatch P cache query = Some (r, s) \<and> 1 < s
            \<and> numDiv (of_nat (length (normalizeText P query))) (of_nat (length candidate)) \<le> s
            \<and> r \<in> set cache \<and> c \<in> set (comparisonStrings P r) \<and> c \<noteq> []
            \<and> s = numDiv (of_nat (length (normalizeText P query))) (of_nat (length c)))
         \<and> 0 \<le> similarity a b \<and> similarity a b \<le> 1"
proof -
  define nq where "nq = normalizeText P query"
  have len: "length candidate < length nq"
    using assms(4,5) unfolding nq_def by (rule stringIncludes_length)
  have cpos: "0 < length candidate" using assms(3) by simp
  have m: "max (length candidate) 1 = length candidate" using assms(3) by (cases candidate) simp_all
  have sc: "candidateScore nq candidate = numDiv (of_nat (length nq)) (of_nat (length candidate))"
    using assms(4) unfolding nq_def candidateScore_def by (simp only: m if_True simp_thms)
  have big: "1 < candidateScore nq candidate"
    unfolding sc using len cpos assms(6) unfolding nq_def by (rule numDiv_gt_one)
  from scanReports_dominates[OF assms(1,2,3), of nq]
  obtain r s where scan: "scanReports P cache nq = Some (r, s)" and dom: "candidateScore nq candidate \<le> s"
    by blast
  have s1: "1 < s" using big dom by simp
  have nqne: "nq \<noteq> []" using len by auto
  have "\<not> s < double_0_45" using s1 double_0_45_le_one by simp
  then have res: "findBestReportMatch P cache query = Some (r, s)"
    using scan nqne unfolding findBestReportMatch_def nq_def[symmetric] by (simp add: Let_def)
  from scanReports_attained[OF scan] obtain c where
    r: "r \<in> set cache" and c: "c \<in> set (comparisonStrings P r)" "c \<noteq> []" and sv: "s = candidateScore nq c"
    by blast
  have "stringIncludes c nq \<or> stringIncludes nq c"
  proof (rule ccontr)
    assume "\<not> (stringIncludes c nq \<or> stringIncludes nq c)"
    then have "s = similarity c nq" using sv by (simp add: candidateScore_def)
    with similarity_bounds[of c nq] s1 show False by simp
  qed
  moreover have "max (length c) 1 = length c" using c(2) by (cases c) simp_all
  ultimately have sv': "s = numDiv (of_nat (length nq)) (of_nat (length c))"
    using sv by (simp add: candidateScore_def)
  have dom': "numDiv (of_nat (length nq)) (of_nat (length candidate)) \<le> s"
    using dom sc by simp
  have "\<exists>r s c. findBestReportMatch P cache query = Some (r, s) \<and> 1 < s
            \<and> numDiv (of_nat (length nq)) (of_nat (length candidate)) \<le> s
            \<and> r \<in> set cache \<and> c \<in> set (comparisonStrings P r) \<and> c \<noteq> []
            \<and> s = numDiv (of_nat (length nq)) (of_nat (length c))"
    using res s1 dom' r c sv' by blast
  then show ?thesis
    unfolding nq_def using similarity_bounds[of a b] by simp
qed

theorem score_above_one_witness:
  "(\<exists>r s c. findBestReportMatch asciiPlatform [abcReport] ''abcd'' = Some (r, s) \<and> 1 < s
       \<and> numDiv 4 3 \<le> s \<and> r \<in> set [abcReport] \<and> c \<in> set (comparisonStrings asciiPlatform r) \<and> c \<noteq> []
       \<and> s = numDiv 4 (of_nat (length c)))
   \<and> 0 \<le> similarity ''abc'' ''xyz'' \<and> similarity ''abc'' ''xyz'' \<le> 1"
proof -
  have n: "normalizeText asciiPlatform ''abcd'' = ''abcd''"
    by (simp add: normalizeText_ascii asciiFaithful_asciiPlatform charCode_def isLowerAlnum_def asciiLower_def)
  have c: "comparisonStrings asciiPlatform abcReport = [''abc'']"
    by (simp add: comparisonStrings_def abcReport_def emptyReport_def truthy_def
          normalizeText_ascii asciiFaithful_asciiPlatform charCode_def isLowerAlnum_def asciiLower_def)
  show ?thesis
    using score_above_one[of abcReport "[abcReport]" "''abc''" asciiPlatform "''abcd''" "''abc''" "''xyz''"]
    by (simp add: n c)
qed

section \<open>What the endpoints publish\<close>

text \<open>
  C9. For a report record, \<open>sanitizeReport\<close> returns the record without its
  \<open>explanationPath\<close> field and with every other field unchanged; for \<^verbatim>\<open>null\<close> or
  \<^verbatim>\<open>undefined\<close> it returns \<^verbatim>\<open>null\<close>. Both endpoints pass the report they publish
  through this function.
\<close>

theorem sanitizeReport_frame:
  "sanitizeReport None = None
   \<and> (\<exists>r'. sanitizeReport (Some r) = Some r'
         \<and> explanationPath r' = Missing
         \<and> slug r' = slug r \<and> title r' = title r \<and> github_repo r' = github_repo r \<and> url r' = url r
         \<and> hasExplanation r' = hasExplanation r \<and> others r' = others r)"
  by (simp add: sanitizeReport_def)

text \<open>
  What the two endpoints publish of a report is a value of \<open>sanitizeReport\<close>, so it has
  no \<open>explanationPath\<close>.
\<close>

lemma searchEndpoint_published:
  "fst (searchEndpoint P fs s query) = SearchMatch published score \<Longrightarrow>
   \<exists>r. published = Some r \<and> explanationPath r = Missing"
  by (auto simp: searchEndpoint_def Let_def sanitizeReport_def split: if_splits option.splits)

lemma explainEndpoint_published:
  "fst (explainEndpoint P fs readFile s slugParam) = Explanation published markdown \<Longrightarrow>
   \<exists>r. published = Some r \<and> explanationPath r = Missing"
  by (auto simp: explainEndpoint_def Let_def sanitizeReport_def
      split: if_splits option.splits prod.splits docval.splits)

section \<open>The specification's query example\<close>

text \<open>
  The query \<open>reentrancy\<close> against the title \<open>Reentrancy Attack in TokenVault\<close>: the
  normalized title has 28 characters and contains the normalized query, which has 10.
\<close>

lemma numDiv_10_28: "numDiv 10 28 < double_0_45"
  by code_simp

text \<open>
  C4, as the specification states it, fails: with that report alone in the cache the
  result is none.
\<close>

theorem reentrancy_below_cutoff_counterexample:
  "findBestReportMatch asciiPlatform [tokenVaultReport] ''reentrancy'' = None"
  by code_simp

text \<open>
  C4, amended. On a platform that treats ASCII as Unicode prescribes, the pairing of the
  query \<open>reentrancy\<close> with the title is scored by the containment rule at
  \<open>len(query) / len(normalized title) = 10 / 28\<close>, which is below the cut-off 0.45. So
  \<open>findBestReportMatch\<close> returns none when that title is the report's only comparison
  string and the report is alone in the cache, and for every cache a returned score is at
  least 0.45, hence never \<open>10 / 28\<close>.
\<close>

theorem reentrancy_below_cutoff:
  assumes "asciiFaithful P"
  shows "candidateScore (normalizeText P ''reentrancy'') (normalizeText P ''Reentrancy Attack in TokenVault'')
           = numDiv 10 28
       \<and> numDiv 10 28 < double_0_45
       \<and> (title r = Some ''Reentrancy Attack in TokenVault'' \<and> \<not> truthy (github_repo r) \<and> \<not> truthy (url r)
            \<longrightarrow> findBestReportMatch P [r] ''reentrancy'' = None)
       \<and> (\<forall>r' s. findBestReportMatch P cache ''reentrancy'' = Some (r', s)
            \<longrightarrow> double_0_45 \<le> s \<and> s \<noteq> numDiv 10 28)"
proof -
  have nq: "normalizeText P ''reentrancy'' = ''reentrancy''"
    using assms by (simp add: normalizeText_ascii charCode_def isLowerAlnum_def asciiLower_def)
  have nt: "normalizeText P ''Reentrancy Attack in TokenVault'' = ''reentrancyattackintokenvault''"
    using assms by (simp add: normalizeText_ascii charCode_def isLowerAlnum_def asciiLower_def)
  have sc: "candidateScore ''reentrancy'' ''reentrancyattackintokenvault'' = numDiv 10 28"
    by (simp add: candidateScore_def)
  have one: "findBestReportMatch P [r] ''reentrancy'' = None"
    if "title r = Some ''Reentrancy Attack in TokenVault''" "\<not> truthy (github_repo r)" "\<not> truthy (url r)"
  proof -
    have cs: "comparisonStrings P r = [''reentrancyattackintokenvault'']"
      using that by (simp add: comparisonStrings_def nt truthy_def)
    have "scanReports P [r] ''reentrancy'' = Some (r, numDiv 10 28)"
      by (simp add: scanReports_def cs scoreCandidate_def exceeds_def sc)
    then show ?thesis
      using numDiv_10_28 by (simp add: findBestReportMatch_def nq)
  qed
  have gen: "double_0_45 \<le> s \<and> s \<noteq> numDiv 10 28"
    if "findBestReportMatch P cache ''reentrancy'' = Some (r', s)" for r' s
    using findBestReportMatch_cutoff[OF that] numDiv_10_28 by auto
  show ?thesis
    using sc one gen numDiv_10_28 by (simp add: nq nt)
qed

theorem reentrancy_below_cutoff_witness:
  "candidateScore (normalizeText asciiPlatform ''reentrancy'')
       (normalizeText asciiPlatform ''Reentrancy Attack in TokenVault'') = numDiv 10 28
   \<and> numDiv 10 28 < double_0_45
   \<and> findBestReportMatch asciiPlatform [tokenVaultReport] ''reentrancy'' = None"
proof -
  have p: "title tokenVaultReport = Some ''Reentrancy Attack in TokenVault''
           \<and> \<not> truthy (github_repo tokenVaultReport) \<and> \<not> truthy (url tokenVaultReport)"
    by (simp add: tokenVaultReport_def emptyReport_def truthy_def)
  from reentrancy_below_cutoff[OF asciiFaithful_asciiPlatform, of tokenVaultReport "[]"] p
  show ?thesis by blast
qed

section \<open>Thresholds\<close>

lemma similarityOf_exact_06:
  assumes "0 < m" "1 - of_nat d / of_nat m = (6 / 10 :: rat)"
  shows "similarityOf d m = double_0_6"
proof -
  have e: "of_nat d / of_nat m = (2 / 5 :: rat)" using assms(2) by simp
  have "similarityOf d m = numSub 1 (roundToDouble (2 / 5))"
    unfolding similarityOf_def numDiv_def e ..
  also have "\<dots> = double_0_6" by code_simp
  finally show ?thesis .
qed

lemma similarityOf_exact_059:
  assumes "0 < m" "1 - of_nat d / of_nat m = (59 / 100 :: rat)"
  shows "similarityOf d m < double_0_6"
proof -
  have e: "of_nat d / of_nat m = (41 / 100 :: rat)" using assms(2) by simp
  have "similarityOf d m = numSub 1 (roundToDouble (41 / 100))"
    unfolding similarityOf_def numDiv_def e ..
  also have "\<dots> < double_0_6" by code_simp
  finally show ?thesis .
qed

text \<open>
  The cut-off of query matching compares doubles: a pair whose Levenshtein similarity is
  \<open>9 / 20\<close> in exact arithmetic gets the score \<open>1 - 11 / 20\<close>, which rounds to the double
  just below the literal \<^verbatim>\<open>0.45\<close>.
\<close>

lemma similarityOf_11_20: "similarityOf 11 20 < double_0_45"
  by code_simp

lemma scoreEntry_keeps: "x \<le> snd best \<Longrightarrow> x \<le> snd (scoreEntry n e best)"
  by (cases e) (auto simp: scoreEntry_def)

lemma scoreEntry_hit: "similarity (fst e) n \<le> snd (scoreEntry n e best)"
  by (cases e) (auto simp: scoreEntry_def)

lemma fold_scoreEntry_keeps: "x \<le> snd best \<Longrightarrow> x \<le> snd (fold (scoreEntry n) es best)"
  by (induction es arbitrary: best) (simp_all add: scoreEntry_keeps)

lemma fold_scoreEntry_hit:
  "e \<in> set es \<Longrightarrow> similarity (fst e) n \<le> snd (fold (scoreEntry n) es best)"
proof (induction es arbitrary: best)
  case Nil
  then show ?case by simp
next
  case (Cons e' es)
  show ?case
  proof (cases "e = e'")
    case True
    from fold_scoreEntry_keeps[OF scoreEntry_hit[of e n best]] show ?thesis using True by simp
  next
    case False
    with Cons.prems have "e \<in> set es" by simp
    from Cons.IH[OF this] show ?thesis by simp
  qed
qed

lemma fold_scoreEntry_attained:
  "Q best \<Longrightarrow> \<forall>e \<in> set es. Q (Some (snd e), similarity (fst e) n) \<Longrightarrow>
   Q (fold (scoreEntry n) es best)"
proof (induction es arbitrary: best)
  case Nil
  then show ?case by simp
next
  case (Cons e es)
  have "Q (scoreEntry n e best)"
    using Cons.prems by (cases e) (auto simp: scoreEntry_def)
  then show ?case using Cons.IH Cons.prems(2) by simp
qed

lemma scanCandidates_step:
  "\<not> truthyVal (propGet index (normalizeText P c)) \<Longrightarrow>
   scanCandidates P index (c # cands) best
     = scanCandidates P index cands
         (if normalizeText P c = [] then best
          else fold (scoreEntry (normalizeText P c)) (objectEntries index) best)"
  by (simp add: Let_def)

lemma scanCandidates_keeps:
  "\<forall>c \<in> set cands. \<not> truthyVal (propGet index (normalizeText P c)) \<Longrightarrow> x \<le> snd best \<Longrightarrow>
   \<exists>b. scanCandidates P index cands best = Inr b \<and> x \<le> snd b"
proof (induction cands arbitrary: best)
  case Nil
  then show ?case by simp
next
  case (Cons c cands)
  have rest: "\<forall>c \<in> set cands. \<not> truthyVal (propGet index (normalizeText P c))"
    using Cons.prems(1) by simp
  have no: "\<not> truthyVal (propGet index (normalizeText P c))" using Cons.prems(1) by simp
  let ?best' = "if normalizeText P c = [] then best
                else fold (scoreEntry (normalizeText P c)) (objectEntries index) best"
  have "x \<le> snd ?best'"
    using Cons.prems(2) fold_scoreEntry_keeps[OF Cons.prems(2)] by (cases "normalizeText P c = []") simp_all
  from Cons.IH[OF rest this] show ?case
    by (simp only: scanCandidates_step[OF no])
qed

lemma scanCandidates_hit:
  "\<forall>c \<in> set cands. \<not> truthyVal (propGet index (normalizeText P c)) \<Longrightarrow>
   c \<in> set cands \<Longrightarrow> normalizeText P c \<noteq> [] \<Longrightarrow> e \<in> set (objectEntries index) \<Longrightarrow>
   \<exists>b. scanCandidates P index cands best = Inr b \<and> similarity (fst e) (normalizeText P c) \<le> snd b"
proof (induction cands arbitrary: best)
  case Nil
  then show ?case by simp
next
  case (Cons c' cands)
  have rest: "\<forall>c \<in> set cands. \<not> truthyVal (propGet index (normalizeText P c))"
    using Cons.prems(1) by simp
  have no: "\<not> truthyVal (propGet index (normalizeText P c'))" using Cons.prems(1) by simp
  let ?best' = "if normalizeText P c' = [] then best
                else fold (scoreEntry (normalizeText P c')) (objectEntries index) best"
  show ?case
  proof (cases "c = c'")
    case True
    have "similarity (fst e) (normalizeText P c) \<le> snd ?best'"
      using fold_scoreEntry_hit[OF Cons.prems(4), of "normalizeText P c" best] Cons.prems(3)
      unfolding True by simp
    from scanCandidates_keeps[OF rest this] show ?thesis
      by (simp only: scanCandidates_step[OF no])
  next
    case False
    with Cons.prems(2) have "c \<in> set cands" by simp
    from Cons.IH[OF rest this Cons.prems(3,4)] show ?thesis
      by (simp only: scanCandidates_step[OF no])
  qed
qed

lemma scanCandidates_attained:
  "\<forall>c \<in> set cands. \<not> truthyVal (propGet index (normalizeText P c)) \<Longrightarrow> Q best \<Longrightarrow>
   \<forall>c \<in> set cands. \<forall>e \<in> set (objectEntries index).
      Q (Some (snd e), similarity (fst e) (normalizeText P c)) \<Longrightarrow>
   \<exists>b. scanCandidates P index cands best = Inr b \<and> Q b"
proof (induction cands arbitrary: best)
  case Nil
  then show ?case by simp
next
  case (Cons c cands)
  have rest: "\<forall>c \<in> set cands. \<not> truthyVal (propGet index (normalizeText P c))"
    using Cons.prems(1) by simp
  have no: "\<not> truthyVal (propGet index (normalizeText P c))" using Cons.prems(1) by simp
  have q: "\<forall>c \<in> set cands. \<forall>e \<in> set (objectEntries index).
      Q (Some (snd e), similarity (fst e) (normalizeText P c))"
    using Cons.prems(3) by simp
  have qc: "\<forall>e \<in> set (objectEntries index). Q (Some (snd e), similarity (fst e) (normalizeText P c))"
    using Cons.prems(3) by simp
  let ?best' = "if normalizeText P c = [] then best
                else fold (scoreEntry (normalizeText P c)) (objectEntries index) best"
  have "Q (fold (scoreEntry (normalizeText P c)) (objectEntries index) best)"
    using Cons.prems(2) qc by (rule fold_scoreEntry_attained)
  then have "Q ?best'" using Cons.prems(2) by simp
  from Cons.IH[OF rest this q] show ?case
    by (simp only: scanCandidates_step[OF no])
qed

text \<open>
  Every index the server builds has non-empty keys and non-empty paths.
\<close>

lemma objectEntries_set: "set (objectEntries index) = set index"
  by (auto simp: objectEntries_def)

lemma assignProp_set: "set (assignProp k v index) \<subseteq> insert (k, v) (set index)"
  by (induction index) (auto split: if_splits)

lemma indexEntry_values:
  assumes "\<forall>e \<in> set index. fst e \<noteq> [] \<and> snd e \<noteq> []"
  shows "\<forall>e \<in> set (indexEntry P dir entry index). fst e \<noteq> [] \<and> snd e \<noteq> []"
proof (cases "suffix ''.md'' (toLowerCase P entry) \<and> normalizeText P (take (length entry - 3) entry) \<noteq> []")
  case True
  let ?k = "normalizeText P (take (length entry - 3) entry)"
  let ?v = "dir @ ''/'' @ entry"
  have "\<forall>e \<in> insert (?k, ?v) (set index). fst e \<noteq> [] \<and> snd e \<noteq> []"
    using assms True by simp
  then have "\<forall>e \<in> set (assignProp ?k ?v index). fst e \<noteq> [] \<and> snd e \<noteq> []"
    using assignProp_set[of ?k ?v index] by blast
  then show ?thesis using True by (simp add: indexEntry_def Let_def)
next
  case False
  then show ?thesis using assms by (auto simp: indexEntry_def Let_def)
qed

lemma fold_indexEntry_values:
  "\<forall>e \<in> set index. fst e \<noteq> [] \<and> snd e \<noteq> [] \<Longrightarrow>
   \<forall>e \<in> set (fold (indexEntry P dir) entries index). fst e \<noteq> [] \<and> snd e \<noteq> []"
proof (induction entries arbitrary: index)
  case Nil
  then show ?case by simp
next
  case (Cons entry entries)
  from Cons.IH[OF indexEntry_values[OF Cons.prems]] show ?case by simp
qed

lemma scanDirectory_values:
  "\<forall>e \<in> set (objectEntries (scanDirectory P fs)). fst e \<noteq> [] \<and> snd e \<noteq> []"
proof (cases "directory fs")
  case (DirEntries entries)
  have "\<forall>e \<in> set (fold (indexEntry P (reportsDir fs)) entries []). fst e \<noteq> [] \<and> snd e \<noteq> []"
    by (rule fold_indexEntry_values) simp
  then show ?thesis by (simp add: objectEntries_set scanDirectory_def DirEntries)
qed (simp_all add: objectEntries_set scanDirectory_def)

lemma double_0_6_pos: "0 < double_0_6"
  by code_simp

text \<open>
  C2. The acceptance thresholds are inclusive. In path resolution with no exact key
  match, over an index whose paths are non-empty (as every index the server builds is): when some pair of a candidate and a document key has a similarity
  \<open>1 - distance / maxLength\<close> of exactly 0.6 and no pair has a higher one, the result is the
  path of a document whose pair has that similarity (that document's path, when no other
  document has a pair of that similarity); a similarity of exactly 0.59 lies
  below the threshold, and when every pair lies below it the result is none. In query
  matching the result is none exactly when the query normalizes to the empty string or the
  best score (the greatest score of any comparison string) is below 0.45; a best score of
  exactly 0.45 yields the winning report and that score.
\<close>

theorem threshold_boundaries:
  assumes noExact: "\<forall>c \<in> set candidates. \<not> truthyVal (propGet index (normalizeText P c))"
    and paths: "\<forall>e \<in> set (objectEntries index). snd e \<noteq> []"
  shows
   "(c \<in> set candidates \<and> normalizeText P c \<noteq> [] \<and> (key, path) \<in> set (objectEntries index)
       \<and> (1::rat) - of_nat (levenshteinDistance key (normalizeText P c))
                     / of_nat (max (max (length key) (length (normalizeText P c))) 1) = 6 / 10
       \<and> (\<forall>c' \<in> set candidates. \<forall>e \<in> set (objectEntries index).
             similarity (fst e) (normalizeText P c') \<le> similarity key (normalizeText P c))
     \<longrightarrow> (\<exists>c' key' path'. findDocPathForCandidates P (Some index) candidates = Some (DocPath path')
             \<and> c' \<in> set candidates \<and> (key', path') \<in> set (objectEntries index)
             \<and> similarity key' (normalizeText P c') = double_0_6
             \<and> ((\<forall>c'' \<in> set candidates. \<forall>e \<in> set (objectEntries index).
                    similarity (fst e) (normalizeText P c'') = double_0_6 \<longrightarrow> snd e = path)
                  \<longrightarrow> path' = path)))
    \<and> (0 < m \<and> (1::rat) - of_nat d / of_nat m = 59 / 100 \<longrightarrow> similarityOf d m < double_0_6)
    \<and> ((\<forall>c' \<in> set candidates. \<forall>e \<in> set (objectEntries index).
             similarity (fst e) (normalizeText P c') < double_0_6)
        \<longrightarrow> findDocPathForCandidates P (Some index) candidates = None)
    \<and> (findBestReportMatch P cache query = None \<longleftrightarrow>
          normalizeText P query = []
          \<or> (case scanReports P cache (normalizeText P query) of
                None \<Rightarrow> True
              | Some (bestMatch, bestScore) \<Rightarrow> bestScore < double_0_45))
    \<and> (normalizeText P query \<noteq> [] \<and> scanReports P cache (normalizeText P query) = Some (r, double_0_45)
        \<longrightarrow> findBestReportMatch P cache query = Some (r, double_0_45))
    \<and> (scanReports P cache (normalizeText P query) = Some (r', s')
        \<longrightarrow> r' \<in> set cache
            \<and> (\<exists>c' \<in> set (comparisonStrings P r'). c' \<noteq> [] \<and> s' = candidateScore (normalizeText P query) c')
            \<and> (\<forall>rep \<in> set cache. \<forall>c' \<in> set (comparisonStrings P rep).
                  c' \<noteq> [] \<longrightarrow> candidateScore (normalizeText P query) c' \<le> s'))"
proof -
  let ?entries = "objectEntries index"
  have a: "\<exists>c' key' path'. findDocPathForCandidates P (Some index) candidates = Some (DocPath path')
             \<and> c' \<in> set candidates \<and> (key', path') \<in> set ?entries
             \<and> similarity key' (normalizeText P c') = double_0_6
             \<and> ((\<forall>c'' \<in> set candidates. \<forall>e \<in> set ?entries.
                    similarity (fst e) (normalizeText P c'') = double_0_6 \<longrightarrow> snd e = path)
                  \<longrightarrow> path' = path)"
    if c: "c \<in> set candidates" "normalizeText P c \<noteq> []" and e: "(key, path) \<in> set ?entries"
      and exact: "(1::rat) - of_nat (levenshteinDistance key (normalizeText P c))
                     / of_nat (max (max (length key) (length (normalizeText P c))) 1) = 6 / 10"
      and best: "\<forall>c' \<in> set candidates. \<forall>e \<in> set ?entries.
             similarity (fst e) (normalizeText P c') \<le> similarity key (normalizeText P c)"
  proof -
    have sim: "similarity key (normalizeText P c) = double_0_6"
      unfolding similarity_def Let_def by (rule similarityOf_exact_06[OF _ exact]) simp
    let ?Q = "\<lambda>b. snd b \<le> double_0_6 \<and> (b = (None, 0) \<or>
                (\<exists>c' \<in> set candidates. \<exists>e \<in> set ?entries.
                    b = (Some (snd e), similarity (fst e) (normalizeText P c'))))"
    have q0: "?Q (None, 0)" using double_0_6_pos by simp
    have qs: "\<forall>c' \<in> set candidates. \<forall>e \<in> set ?entries.
        ?Q (Some (snd e), similarity (fst e) (normalizeText P c'))"
      using best sim by auto
    from scanCandidates_attained[where Q = ?Q, OF noExact q0 qs]
    obtain b where b: "scanCandidates P index candidates (None, 0) = Inr b" and qb: "?Q b" by blast
    from scanCandidates_hit[OF noExact c e, of "(None, 0)"] b sim
    have lo: "double_0_6 \<le> snd b" by simp
    have "b \<noteq> (None, 0)" using lo double_0_6_pos by auto
    with qb obtain c' e' where
      m: "c' \<in> set candidates" "e' \<in> set ?entries"
      and bv: "b = (Some (snd e'), similarity (fst e') (normalizeText P c'))"
      by blast
    have sv: "similarity (fst e') (normalizeText P c') = double_0_6" using lo qb bv by simp
    have ne: "snd e' \<noteq> []" using paths m(2) by simp
    have "findDocPathForCandidates P (Some index) candidates = Some (DocPath (snd e'))"
      using b bv sv ne by (simp add: findDocPathForCandidates_def truthy_def)
    moreover have "(fst e', snd e') \<in> set ?entries" using m(2) by simp
    moreover have "snd e' = path"
      if "\<forall>c'' \<in> set candidates. \<forall>e \<in> set ?entries.
            similarity (fst e) (normalizeText P c'') = double_0_6 \<longrightarrow> snd e = path"
      using that m sv by blast
    ultimately show ?thesis using m(1) sv by blast
  qed
  have b: "similarityOf d m < double_0_6" if "0 < m" "(1::rat) - of_nat d / of_nat m = 59 / 100"
    using that by (rule similarityOf_exact_059)
  have c: "findDocPathForCandidates P (Some index) candidates = None"
    if below: "\<forall>c' \<in> set candidates. \<forall>e \<in> set ?entries.
             similarity (fst e) (normalizeText P c') < double_0_6"
  proof -
    let ?Q = "\<lambda>b. snd b < double_0_6"
    have q0: "?Q (None :: string option, 0)" using double_0_6_pos by simp
    have qs: "\<forall>c' \<in> set candidates. \<forall>e \<in> set ?entries.
        ?Q (Some (snd e), similarity (fst e) (normalizeText P c'))"
      using below by simp
    from scanCandidates_attained[where Q = ?Q, OF noExact q0 qs]
    obtain b where b: "scanCandidates P index candidates (None, 0) = Inr b" and qb: "?Q b" by blast
    then show ?thesis by (cases b) (simp add: findDocPathForCandidates_def)
  qed
  have d: "findBestReportMatch P cache query = None \<longleftrightarrow>
        normalizeText P query = []
        \<or> (case scanReports P cache (normalizeText P query) of
              None \<Rightarrow> True
            | Some (bestMatch, bestScore) \<Rightarrow> bestScore < double_0_45)"
    by (simp add: findBestReportMatch_def Let_def split: option.splits)
  have e: "findBestReportMatch P cache query = Some (r, double_0_45)"
    if "normalizeText P query \<noteq> []" "scanReports P cache (normalizeText P query) = Some (r, double_0_45)"
    using that by (simp add: findBestReportMatch_def Let_def)
  have f: "r' \<in> set cache
            \<and> (\<exists>c' \<in> set (comparisonStrings P r'). c' \<noteq> [] \<and> s' = candidateScore (normalizeText P query) c')
            \<and> (\<forall>rep \<in> set cache. \<forall>c' \<in> set (comparisonStrings P rep).
                  c' \<noteq> [] \<longrightarrow> candidateScore (normalizeText P query) c' \<le> s')"
    if scan: "scanReports P cache (normalizeText P query) = Some (r', s')"
  proof -
    have "candidateScore (normalizeText P query) c' \<le> s'"
      if "rep \<in> set cache" "c' \<in> set (comparisonStrings P rep)" "c' \<noteq> []" for rep c'
      using scanReports_dominates[OF that, of "normalizeText P query"] scan by simp
    with scanReports_attained[OF scan] show ?thesis by blast
  qed
  show ?thesis
    apply (intro conjI)
    subgoal using a by blast
    subgoal using b by blast
    subgoal using c by blast
    subgoal using d by blast
    subgoal using e by blast
    subgoal using f by blast
    done
qed

lemma twenty_score: "candidateScore ''abcdefghi'' ''abcdefghijklmnopqrst'' = double_0_45"
  by code_simp

lemma twenty_scan: "scanReports asciiPlatform [twentyReport] ''abcdefghi'' = Some (twentyReport, double_0_45)"
proof -
  have c: "comparisonStrings asciiPlatform twentyReport = [''abcdefghijklmnopqrst'']"
    by (simp add: comparisonStrings_def twentyReport_def emptyReport_def truthy_def
          normalizeText_ascii asciiFaithful_asciiPlatform charCode_def isLowerAlnum_def asciiLower_def)
  show ?thesis
    by (simp add: scanReports_def c scoreCandidate_def exceeds_def twenty_score)
qed

theorem threshold_boundaries_witness:
  "findDocPathForCandidates asciiPlatform (Some exampleIndex) [''abcxy'']
     = Some (DocPath ''/srv/data/reports/abcde.md'')
   \<and> similarity ''abcde'' (normalizeText asciiPlatform ''abcxy'') = double_0_6
   \<and> similarityOf 41 100 < double_0_6
   \<and> findBestReportMatch asciiPlatform [twentyReport] ''abcdefghi'' = Some (twentyReport, double_0_45)"
proof -
  have n: "normalizeText asciiPlatform ''abcdefghi'' = ''abcdefghi''"
    by (simp add: normalizeText_ascii asciiFaithful_asciiPlatform charCode_def isLowerAlnum_def asciiLower_def)
  have nc: "normalizeText asciiPlatform ''abcxy'' = ''abcxy''"
    by (simp add: normalizeText_ascii asciiFaithful_asciiPlatform charCode_def isLowerAlnum_def asciiLower_def)
  have oe: "objectEntries exampleIndex = [(''abcde'', ''/srv/data/reports/abcde.md'')]"
    by code_simp
  have lev: "levenshteinDistance ''abcde'' ''abcxy'' = 2"
    by code_simp
  have noExact: "\<forall>c \<in> set [''abcxy'']. \<not> truthyVal (propGet exampleIndex (normalizeText asciiPlatform c))"
    by (simp add: nc propGet_def exampleIndex_def truthyVal_def)
  have paths: "\<forall>e \<in> set (objectEntries exampleIndex). snd e \<noteq> []"
    by (simp add: oe)
  have h: "(1::rat) - of_nat 41 / of_nat 100 = 59 / 100"
    by simp
  note t = threshold_boundaries[OF noExact paths, of "''abcxy''" "''abcde''" "''/srv/data/reports/abcde.md''"
      100 41 "[twentyReport]" "''abcdefghi''" twentyReport twentyReport double_0_45]
  have best: "\<forall>c' \<in> set [''abcxy'']. \<forall>e \<in> set (objectEntries exampleIndex).
      similarity (fst e) (normalizeText asciiPlatform c') \<le> similarity ''abcde'' (normalizeText asciiPlatform ''abcxy'')"
    by (simp add: oe)
  have exact: "(1::rat) - of_nat (levenshteinDistance ''abcde'' (normalizeText asciiPlatform ''abcxy''))
      / of_nat (max (max (length ''abcde'') (length (normalizeText asciiPlatform ''abcxy''))) 1) = 6 / 10"
    by (simp add: nc lev)
  have mem: "''abcxy'' \<in> set [''abcxy'']" "normalizeText asciiPlatform ''abcxy'' \<noteq> []"
      "(''abcde'', ''/srv/data/reports/abcde.md'') \<in> set (objectEntries exampleIndex)"
    by (simp_all add: nc oe)
  have uniq: "\<forall>c'' \<in> set [''abcxy'']. \<forall>e \<in> set (objectEntries exampleIndex).
      similarity (fst e) (normalizeText asciiPlatform c'') = double_0_6
        \<longrightarrow> snd e = ''/srv/data/reports/abcde.md''"
    by (simp add: oe)
  have "\<exists>c' key' path'. findDocPathForCandidates asciiPlatform (Some exampleIndex) [''abcxy''] = Some (DocPath path')
       \<and> c' \<in> set [''abcxy''] \<and> (key', path') \<in> set (objectEntries exampleIndex)
       \<and> similarity key' (normalizeText asciiPlatform c') = double_0_6
       \<and> path' = ''/srv/data/reports/abcde.md''"
    using t[THEN conjunct1] mem exact best uniq by blast
  then have A: "findDocPathForCandidates asciiPlatform (Some exampleIndex) [''abcxy'']
       = Some (DocPath ''/srv/data/reports/abcde.md'')
     \<and> similarity ''abcde'' (normalizeText asciiPlatform ''abcxy'') = double_0_6"
    by (auto simp: oe)
  have B: "similarityOf 41 100 < double_0_6"
    using t[THEN conjunct2, THEN conjunct1] h by simp
  have C: "findBestReportMatch asciiPlatform [twentyReport] ''abcdefghi'' = Some (twentyReport, double_0_45)"
    using t[THEN conjunct2, THEN conjunct2, THEN conjunct2, THEN conjunct2, THEN conjunct1] twenty_scan n by simp
  from A B C show ?thesis by blast
qed

section \<open>Candidate generation\<close>

lemma set_setAdd [simp]: "set (setAdd x xs) = insert x (set xs)"
  by (auto simp: setAdd_def)

lemma set_addGithubRepo:
  "set (addGithubRepo repo cs)
     = set cs \<union> {repo}
       \<union> (if filter (\<lambda>s. s \<noteq> []) (splitOn CHR ''/'' repo) = [] then {}
          else {last (filter (\<lambda>s. s \<noteq> []) (splitOn CHR ''/'' repo))})"
  by (auto simp: addGithubRepo_def Let_def)

lemma set_addUrl:
  "set (addUrl P u cs)
     = set cs \<union> {u}
       \<union> (case urlPathname P u of
            None \<Rightarrow> {}
          | Some pathname \<Rightarrow>
              if pathname \<noteq> [] \<and> basename pathname \<noteq> []
              then {basename pathname, stripExtension (basename pathname)} else {})"
  by (auto simp: addUrl_def Let_def split: option.splits)

lemma set_buildReportDocCandidates:
  "set (buildReportDocCandidates P report slug')
     = ((if slug' \<noteq> [] then {slug'} else {})
        \<union> (if truthy (title report) then {the (title report)} else {})
        \<union> (if truthy (github_repo report) then set (addGithubRepo (the (github_repo report)) []) else {})
        \<union> (if truthy (url report) then set (addUrl P (the (url report)) []) else {})) - {[]}"
  by (auto simp: buildReportDocCandidates_def Let_def set_addGithubRepo set_addUrl split: option.splits if_splits)

text \<open>
  C5, as the specification states it, fails on two inputs. The repository name \<open>/\<close>
  contains a separator, and the candidates are the name alone: its segments are empty, and
  empty strings are filtered out. The URL \<^verbatim>\<open>https://host/.pdf\<close> is well-formed and its final
  segment \<open>.pdf\<close> is non-empty, and the candidates hold the segment but not the segment
  without its extension, which is the empty string.
\<close>

theorem candidate_generation_counterexample:
  "buildReportDocCandidates asciiPlatform slashReport [] = [''/'']
   \<and> last (splitOn CHR ''/'' ''/'') \<notin> set (buildReportDocCandidates asciiPlatform slashReport [])
   \<and> urlPathname asciiPlatform ''https://host/.pdf'' = Some ''/.pdf''
   \<and> basename ''/.pdf'' = ''.pdf''
   \<and> buildReportDocCandidates asciiPlatform dotfileUrlReport [] = [''https://host/.pdf'', ''.pdf'']
   \<and> stripExtension ''.pdf'' \<notin> set (buildReportDocCandidates asciiPlatform dotfileUrlReport [])"
  by code_simp

text \<open>
  C5, amended. When \<open>github_repo\<close> is present, the candidates contain it verbatim and,
  when it has a non-empty segment between separators, the last such segment
  (\<open>org/proj\<close> contributes \<open>org/proj\<close> and \<open>proj\<close>). When \<open>url\<close> parses as a URL whose
  path has a non-empty base name, the candidates contain the base name and, when it is
  non-empty, the base name without its trailing extension
  (\<^verbatim>\<open>https://host/path/Report-Name.pdf\<close> contributes \<open>Report-Name.pdf\<close> and
  \<open>Report-Name\<close>). A \<open>url\<close> that does not parse contributes the verbatim string only, and
  candidate generation raises no error: it is a total function.
\<close>

theorem candidate_generation:
  "(truthy (github_repo report) \<longrightarrow>
      the (github_repo report) \<in> set (buildReportDocCandidates P report slug')
      \<and> (filter (\<lambda>s. s \<noteq> []) (splitOn CHR ''/'' (the (github_repo report))) \<noteq> [] \<longrightarrow>
           last (filter (\<lambda>s. s \<noteq> []) (splitOn CHR ''/'' (the (github_repo report))))
             \<in> set (buildReportDocCandidates P report slug')))
   \<and> (truthy (url report) \<and> urlPathname P (the (url report)) = Some pathname \<and> basename pathname \<noteq> [] \<longrightarrow>
        basename pathname \<in> set (buildReportDocCandidates P report slug')
        \<and> (stripExtension (basename pathname) \<noteq> [] \<longrightarrow>
             stripExtension (basename pathname) \<in> set (buildReportDocCandidates P report slug')))
   \<and> (truthy (url report) \<and> urlPathname P (the (url report)) = None \<longrightarrow>
        set (buildReportDocCandidates P report slug')
          = set (buildReportDocCandidates P (report\<lparr>url := None\<rparr>) slug') \<union> {the (url report)})
   \<and> buildReportDocCandidates asciiPlatform orgProjReport [] = [''org/proj'', ''proj'']
   \<and> buildReportDocCandidates asciiPlatform pdfUrlReport []
        = [''https://host/path/Report-Name.pdf'', ''Report-Name.pdf'', ''Report-Name'']"
proof -
  have a: "the (github_repo report) \<in> set (buildReportDocCandidates P report slug')"
    if "truthy (github_repo report)"
    using that by (auto simp: set_buildReportDocCandidates set_addGithubRepo truthy_def split: option.splits)
  have b: "last (filter (\<lambda>s. s \<noteq> []) (splitOn CHR ''/'' (the (github_repo report))))
             \<in> set (buildReportDocCandidates P report slug')"
    if "truthy (github_repo report)" "filter (\<lambda>s. s \<noteq> []) (splitOn CHR ''/'' (the (github_repo report))) \<noteq> []"
  proof -
    have "last (filter (\<lambda>s. s \<noteq> []) (splitOn CHR ''/'' (the (github_repo report))))
            \<in> set (filter (\<lambda>s. s \<noteq> []) (splitOn CHR ''/'' (the (github_repo report))))"
      using that(2) by (rule last_in_set)
    then have "last (filter (\<lambda>s. s \<noteq> []) (splitOn CHR ''/'' (the (github_repo report)))) \<noteq> []"
      by simp
    then show ?thesis
      using that by (simp add: set_buildReportDocCandidates set_addGithubRepo)
  qed
  have c: "basename pathname \<in> set (buildReportDocCandidates P report slug')"
    if "truthy (url report)" "urlPathname P (the (url report)) = Some pathname" "basename pathname \<noteq> []"
  proof -
    have "pathname \<noteq> []" using that(3) by (auto simp: basename_def)
    then show ?thesis
      using that by (simp add: set_buildReportDocCandidates set_addUrl)
  qed
  have d: "stripExtension (basename pathname) \<in> set (buildReportDocCandidates P report slug')"
    if "truthy (url report)" "urlPathname P (the (url report)) = Some pathname" "basename pathname \<noteq> []"
      "stripExtension (basename pathname) \<noteq> []"
  proof -
    have "pathname \<noteq> []" using that(3) by (auto simp: basename_def)
    then show ?thesis
      using that by (simp add: set_buildReportDocCandidates set_addUrl)
  qed
  have e: "set (buildReportDocCandidates P report slug')
          = set (buildReportDocCandidates P (report\<lparr>url := None\<rparr>) slug') \<union> {the (url report)}"
    if "truthy (url report)" "urlPathname P (the (url report)) = None"
  proof -
    have "the (url report) \<noteq> []" using that(1) by (auto simp: truthy_def split: option.splits)
    then show ?thesis
      using that by (auto simp: set_buildReportDocCandidates set_addUrl truthy_def)
  qed
  have f: "buildReportDocCandidates asciiPlatform orgProjReport [] = [''org/proj'', ''proj'']"
    by code_simp
  have g: "buildReportDocCandidates asciiPlatform pdfUrlReport []
        = [''https://host/path/Report-Name.pdf'', ''Report-Name.pdf'', ''Report-Name'']"
    by code_simp
  show ?thesis
    apply (intro conjI)
    subgoal using a b by blast
    subgoal using c d by blast
    subgoal using e by blast
    subgoal by (rule f)
    subgoal by (rule g)
    done
qed

theorem candidate_generation_witness:
  "''org/proj'' \<in> set (buildReportDocCandidates asciiPlatform orgProjReport [])
   \<and> ''proj'' \<in> set (buildReportDocCandidates asciiPlatform orgProjReport [])
   \<and> ''Report-Name.pdf'' \<in> set (buildReportDocCandidates asciiPlatform pdfUrlReport [])
   \<and> ''Report-Name'' \<in> set (buildReportDocCandidates asciiPlatform pdfUrlReport [])
   \<and> set (buildReportDocCandidates asciiPlatform malformedUrlReport [])
        = set (buildReportDocCandidates asciiPlatform (malformedUrlReport\<lparr>url := None\<rparr>) []) \<union> {''not a url''}"
proof -
  note t1 = candidate_generation[of orgProjReport asciiPlatform "[]" "[]"]
  note t2 = candidate_generation[of pdfUrlReport asciiPlatform "[]" "''/path/Report-Name.pdf''"]
  note t3 = candidate_generation[of malformedUrlReport asciiPlatform "[]" "[]"]
  have g: "truthy (github_repo orgProjReport)" "the (github_repo orgProjReport) = ''org/proj''"
      "filter (\<lambda>s. s \<noteq> []) (splitOn CHR ''/'' ''org/proj'') = [''org'', ''proj'']"
    by (simp_all add: orgProjReport_def emptyReport_def truthy_def)
  have u: "truthy (url pdfUrlReport)" "the (url pdfUrlReport) = ''https://host/path/Report-Name.pdf''"
      "urlPathname asciiPlatform ''https://host/path/Report-Name.pdf'' = Some ''/path/Report-Name.pdf''"
      "basename ''/path/Report-Name.pdf'' = ''Report-Name.pdf''"
      "stripExtension ''Report-Name.pdf'' = ''Report-Name''"
    by (simp_all add: pdfUrlReport_def emptyReport_def truthy_def asciiPlatform_def exampleUrlPathname_def
          basename_def stripExtension_def)
  have m: "truthy (url malformedUrlReport)" "the (url malformedUrlReport) = ''not a url''"
      "urlPathname asciiPlatform ''not a url'' = None"
    by (simp_all add: malformedUrlReport_def emptyReport_def truthy_def asciiPlatform_def exampleUrlPathname_def)
  have A: "''org/proj'' \<in> set (buildReportDocCandidates asciiPlatform orgProjReport [])
      \<and> ''proj'' \<in> set (buildReportDocCandidates asciiPlatform orgProjReport [])"
    using t1[THEN conjunct1] g by simp
  have B: "''Report-Name.pdf'' \<in> set (buildReportDocCandidates asciiPlatform pdfUrlReport [])
      \<and> ''Report-Name'' \<in> set (buildReportDocCandidates asciiPlatform pdfUrlReport [])"
    using t2[THEN conjunct2, THEN conjunct1] u by simp
  have C: "set (buildReportDocCandidates asciiPlatform malformedUrlReport [])
        = set (buildReportDocCandidates asciiPlatform (malformedUrlReport\<lparr>url := None\<rparr>) []) \<union> {''not a url''}"
    using t3[THEN conjunct2, THEN conjunct2, THEN conjunct1] m by simp
  from A B C show ?thesis by blast
qed

section \<open>The report cache\<close>

lemma ensureReportDocsIndex_frame:
  "reportsCache (ensureReportDocsIndex P fs s) = reportsCache s"
  "sourceReads (ensureReportDocsIndex P fs s) = sourceReads s"
  by (simp_all add: ensureReportDocsIndex_def)

lemma ensureReportDocsIndex_idem:
  "ensureReportDocsIndex P fs (ensureReportDocsIndex P fs s) = ensureReportDocsIndex P fs s"
  by (simp add: ensureReportDocsIndex_def)

lemma cache_loaded:
  assumes "reportsCache s = []" "source fs = SourceArray items"
  shows "reportsCache (ensureReportsLoaded P fs s)
       = map (enrich P fs (ensureReportDocsIndex P fs (s\<lparr>sourceReads := sourceReads s + 1\<rparr>)))
           (zip items [0..<length items])"
  using assms by (simp add: ensureReportsLoaded_def Let_def)

lemma cache_not_loaded:
  assumes "reportsCache s = []" "\<forall>items. source fs \<noteq> SourceArray items"
  shows "reportsCache (ensureReportsLoaded P fs s) = []"
  using assms by (cases "source fs") (simp_all add: ensureReportsLoaded_def Let_def)

lemma reads_loaded:
  assumes "reportsCache s = []"
  shows "sourceReads (ensureReportsLoaded P fs s) = sourceReads s + 1"
  using assms
  by (cases "source fs") (simp_all add: ensureReportsLoaded_def Let_def ensureReportDocsIndex_frame)

lemma slug_enrich:
  "slug (enrich P fs s (item, i))
     = Some (deriveSlug P (case item of Some r \<Rightarrow> r | None \<Rightarrow> emptyReport) i)"
  by (simp add: enrich_def Let_def)

lemma showNat_digits: "showNat n \<noteq> [] \<and> (\<forall>c \<in> set (showNat n). isDigit c)"
proof (induction n rule: showNat.induct)
  case (1 n)
  show ?case
  proof (cases "n < 10")
    case True
    then show ?thesis by (simp add: showNat.simps[of n] isDigit_def charCode_def)
  next
    case False
    have "n mod 10 < 10" by simp
    then have "isDigit (char_of (48 + n mod 10))" by (simp add: isDigit_def charCode_def)
    with 1 False show ?thesis by (simp add: showNat.simps[of n])
  qed
qed

lemma placeholder_nonempty: "placeholder i \<noteq> []"
  by (simp add: placeholder_def)

lemma deriveSlug_nonempty: "deriveSlug P base i \<noteq> []"
  by (simp add: deriveSlug_def Let_def placeholder_nonempty)

lemma isDigit_ascii: "isDigit c \<Longrightarrow> charCode c < 128"
  by (simp add: isDigit_def)

lemma isDigit_isLowerAlnum: "isDigit c \<Longrightarrow> isLowerAlnum c"
  by (simp add: isDigit_def isLowerAlnum_def)

lemma asciiLower_digit:
  assumes "isDigit c"
  shows "asciiLower c = c"
proof -
  have notin: "c \<notin> set ''ABCDEFGHIJKLMNOPQRSTUVWXYZ''"
    using assms by (auto simp: isDigit_def charCode_def)
  have len: "length ''ABCDEFGHIJKLMNOPQRSTUVWXYZ'' = length ''abcdefghijklmnopqrstuvwxyz''"
    by simp
  have "map_of (zip ''ABCDEFGHIJKLMNOPQRSTUVWXYZ'' ''abcdefghijklmnopqrstuvwxyz'') c = None"
    by (rule iffD2[OF map_of_zip_is_None[OF len]]) (rule notin)
  then show ?thesis by (simp only: asciiLower_def option.case)
qed

lemma hyphenateRuns_digits: "\<forall>c \<in> set ds. isDigit c \<Longrightarrow> hyphenateRuns b ds = ds"
  by (induction ds arbitrary: b) (simp_all add: isDigit_isLowerAlnum)

lemma createSlug_placeholder:
  assumes "asciiFaithful P"
  shows "createSlug P (placeholder i) = placeholder i"
proof -
  define ds where "ds = showNat (i + 1)"
  have ds: "ds \<noteq> []" "\<forall>c \<in> set ds. isDigit c"
    using showNat_digits[of "i + 1"] unfolding ds_def by simp_all
  have p: "placeholder i = ''report-'' @ ds" by (simp add: placeholder_def ds_def)
  have ascii: "\<forall>c \<in> set (placeholder i). charCode c < 128"
    unfolding p using ds(2) by (auto simp: charCode_def dest: isDigit_ascii[unfolded charCode_def])
  have "map asciiLower ds = ds"
    using ds(2) by (intro map_idI) (simp add: asciiLower_digit)
  moreover have "map asciiLower ''report-'' = ''report-''"
    by (simp add: asciiLower_def)
  ultimately have low: "map asciiLower (placeholder i) = placeholder i"
    unfolding p by simp
  have hy: "hyphenateRuns False (placeholder i) = placeholder i"
    unfolding p using ds(2) by (simp add: isLowerAlnum_def charCode_def hyphenateRuns_digits)
  have nh: "last ds \<noteq> CHR ''-''"
  proof -
    have "isDigit (last ds)" using ds by simp
    then show ?thesis by (auto simp: isDigit_def charCode_def)
  qed
  have "hd (rev ds @ rev ''report-'') = last ds"
    using ds(1) by (simp add: hd_rev)
  then have "dropWhile (\<lambda>c. c = CHR ''-'') (rev ds @ rev ''report-'') = rev ds @ rev ''report-''"
    using nh by (simp only: dropWhile_eq_self_iff) simp
  then have tr: "trimHyphens (placeholder i) = placeholder i"
    unfolding p by (simp add: trimHyphens_def)
  show ?thesis
    by (simp add: createSlug_ascii[OF assms ascii] low hy tr)
qed

text \<open>
  C6, as the specification states it, fails on the priority: a field that holds only
  white space is blank, and the code still takes it as the source of the slug. The record
  has the title \<open>' '\<close> and the repository \<open>org/repo\<close>; the first non-blank field would
  give the slug \<open>org-repo\<close>, and the code slugifies the title to the empty string and falls
  back to \<open>report-1\<close>.
\<close>

theorem slug_priority_counterexample:
  "map slug (reportsCache (ensureReportsLoaded asciiPlatform blankTitleFiles freshState))
     = [Some ''report-1'']
   \<and> createSlug asciiPlatform '' '' = ''''
   \<and> createSlug asciiPlatform ''org/repo'' = ''org-repo''"
  by code_simp

text \<open>
  C6, amended. Every record that \<open>ensureReportsLoaded\<close> puts into the cache has a
  non-empty slug. On a platform that treats ASCII as Unicode prescribes, the slug is the
  slugified first one of the record's \<open>slug\<close>, \<open>title\<close>, \<open>github_repo\<close> and \<open>url\<close> that is a
  non-empty string (a string of white space counts), and the placeholder
  \<open>report-<index + 1>\<close> when all four are absent or empty or when the slugified text is
  empty. Slugs are not made unique: two records with the same title get the same slug.
\<close>

theorem slug_invariant:
  assumes "reportsCache s = []" and "source fs = SourceArray items"
  shows "length (reportsCache (ensureReportsLoaded P fs s)) = length items
     \<and> (\<forall>i < length items.
          slug (reportsCache (ensureReportsLoaded P fs s) ! i) \<noteq> None
          \<and> the (slug (reportsCache (ensureReportsLoaded P fs s) ! i)) \<noteq> []
          \<and> (asciiFaithful P \<longrightarrow>
               the (slug (reportsCache (ensureReportsLoaded P fs s) ! i))
                 = (case firstTruthy
                           [slug (case items ! i of Some r \<Rightarrow> r | None \<Rightarrow> emptyReport),
                            title (case items ! i of Some r \<Rightarrow> r | None \<Rightarrow> emptyReport),
                            github_repo (case items ! i of Some r \<Rightarrow> r | None \<Rightarrow> emptyReport),
                            url (case items ! i of Some r \<Rightarrow> r | None \<Rightarrow> emptyReport)] of
                      Some src \<Rightarrow> if createSlug P src \<noteq> [] then createSlug P src else placeholder i
                    | None \<Rightarrow> placeholder i)))
     \<and> map slug (reportsCache (ensureReportsLoaded asciiPlatform duplicateFiles freshState))
          = [Some ''foo'', Some ''foo'', Some ''report-3'']"
proof -
  let ?s2 = "ensureReportDocsIndex P fs (s\<lparr>sourceReads := sourceReads s + 1\<rparr>)"
  have cache: "reportsCache (ensureReportsLoaded P fs s) = map (enrich P fs ?s2) (zip items [0..<length items])"
    using assms by (rule cache_loaded)
  have len: "length (reportsCache (ensureReportsLoaded P fs s)) = length items"
    unfolding cache by simp
  have each: "slug (reportsCache (ensureReportsLoaded P fs s) ! i)
        = Some (deriveSlug P (case items ! i of Some r \<Rightarrow> r | None \<Rightarrow> emptyReport) i)"
    if "i < length items" for i
    unfolding cache using that by (simp add: slug_enrich)
  have der: "deriveSlug P base i
        = (case firstTruthy [slug base, title base, github_repo base, url base] of
             Some src \<Rightarrow> if createSlug P src \<noteq> [] then createSlug P src else placeholder i
           | None \<Rightarrow> placeholder i)"
    if "asciiFaithful P" for base :: "'a report" and i
    using createSlug_placeholder[OF that, of i] placeholder_nonempty[of i]
    by (simp add: deriveSlug_def Let_def split: option.splits)
  have dup: "map slug (reportsCache (ensureReportsLoaded asciiPlatform duplicateFiles freshState))
          = [Some ''foo'', Some ''foo'', Some ''report-3'']"
    by code_simp
  show ?thesis
    apply (intro conjI allI impI)
    subgoal by (rule len)
    subgoal using each by simp
    subgoal using each deriveSlug_nonempty by simp
    subgoal using each der by simp
    subgoal by (rule dup)
    done
qed

theorem slug_invariant_witness:
  "length (reportsCache (ensureReportsLoaded asciiPlatform duplicateFiles freshState)) = 3
   \<and> the (slug (reportsCache (ensureReportsLoaded asciiPlatform duplicateFiles freshState) ! 0)) = ''foo''
   \<and> the (slug (reportsCache (ensureReportsLoaded asciiPlatform duplicateFiles freshState) ! 2)) = ''report-3''"
proof -
  have h: "reportsCache freshState = []"
      "source duplicateFiles = SourceArray [Some (emptyReport\<lparr>title := Some ''Foo''\<rparr>),
                            Some (emptyReport\<lparr>title := Some ''Foo''\<rparr>), None]"
    by (simp_all add: freshState_def duplicateFiles_def)
  note t = slug_invariant[OF h, of asciiPlatform]
  have foo: "createSlug asciiPlatform ''Foo'' = ''foo''"
    by code_simp
  have p3: "placeholder 2 = ''report-3''"
    by code_simp
  have A: "length (reportsCache (ensureReportsLoaded asciiPlatform duplicateFiles freshState)) = 3"
    using t[THEN conjunct1] by simp
  have B: "the (slug (reportsCache (ensureReportsLoaded asciiPlatform duplicateFiles freshState) ! 0)) = ''foo''"
    using t[THEN conjunct2, THEN conjunct1, rule_format, of 0] asciiFaithful_asciiPlatform
    by (simp add: emptyReport_def truthy_def foo)
  have C: "the (slug (reportsCache (ensureReportsLoaded asciiPlatform duplicateFiles freshState) ! 2)) = ''report-3''"
    using t[THEN conjunct2, THEN conjunct1, rule_format, of 2] asciiFaithful_asciiPlatform
    by (simp add: emptyReport_def truthy_def p3)
  from A B C show ?thesis by blast
qed

section \<open>Loading twice\<close>

text \<open>
  C7, as the specification states it, fails: when the first call leaves the cache empty
  (here the records file is missing), the second call reads the source again.
\<close>

theorem reload_counterexample:
  "sourceReads (ensureReportsLoaded asciiPlatform missingFiles freshState) = 1
   \<and> sourceReads (ensureReportsLoaded asciiPlatform missingFiles
                     (ensureReportsLoaded asciiPlatform missingFiles freshState)) = 2"
  by (simp add: ensureReportsLoaded_def missingFiles_def freshState_def)

text \<open>
  C7, amended. For every state and fixed records source and directory, two calls of
  \<open>ensureReportsLoaded\<close> in succession leave the cache with the contents one call leaves.
  When the first call leaves the cache non-empty, the second changes nothing and does not
  read the source; when the first call leaves it empty, the second reads the source once
  more.
\<close>

theorem reload_idempotence:
  "reportsCache (ensureReportsLoaded P fs (ensureReportsLoaded P fs s))
     = reportsCache (ensureReportsLoaded P fs s)
   \<and> (reportsCache (ensureReportsLoaded P fs s) \<noteq> [] \<longrightarrow>
        ensureReportsLoaded P fs (ensureReportsLoaded P fs s) = ensureReportsLoaded P fs s)
   \<and> (reportsCache (ensureReportsLoaded P fs s) = [] \<longrightarrow>
        sourceReads (ensureReportsLoaded P fs (ensureReportsLoaded P fs s))
          = sourceReads (ensureReportsLoaded P fs s) + 1)"
proof -
  let ?s' = "ensureReportsLoaded P fs s"
  have noop: "ensureReportsLoaded P fs ?s' = ?s'" if "reportsCache ?s' \<noteq> []"
    using that by (simp add: ensureReportsLoaded_def[of P fs ?s'])
  have again: "reportsCache (ensureReportsLoaded P fs ?s') = []" if e: "reportsCache ?s' = []"
  proof (cases "\<exists>items. source fs = SourceArray items")
    case True
    then obtain items where src: "source fs = SourceArray items" by blast
    have s0: "reportsCache s = []"
      using e by (cases "reportsCache s = []") (simp_all add: ensureReportsLoaded_def)
    have "items = []" using e cache_loaded[OF s0 src, of P] by simp
    then show ?thesis using cache_loaded[OF e src, of P] by simp
  next
    case False
    then show ?thesis using cache_not_loaded[OF e, of fs P] by simp
  qed
  have reads: "sourceReads (ensureReportsLoaded P fs ?s') = sourceReads ?s' + 1" if "reportsCache ?s' = []"
    using that by (rule reads_loaded)
  show ?thesis
    apply (intro conjI impI)
    subgoal using noop again by (cases "reportsCache ?s' = []") simp_all
    subgoal using noop by simp
    subgoal using reads by simp
    done
qed

theorem reload_idempotence_witness:
  "reportsCache (ensureReportsLoaded asciiPlatform duplicateFiles
       (ensureReportsLoaded asciiPlatform duplicateFiles freshState))
     = reportsCache (ensureReportsLoaded asciiPlatform duplicateFiles freshState)
   \<and> sourceReads (ensureReportsLoaded asciiPlatform duplicateFiles
       (ensureReportsLoaded asciiPlatform duplicateFiles freshState)) = 1
   \<and> sourceReads (ensureReportsLoaded asciiPlatform missingFiles
       (ensureReportsLoaded asciiPlatform missingFiles freshState)) = 2"
proof -
  note t1 = reload_idempotence[of asciiPlatform duplicateFiles freshState]
  note t2 = reload_idempotence[of asciiPlatform missingFiles freshState]
  have h: "reportsCache freshState = []"
      "source duplicateFiles = SourceArray [Some (emptyReport\<lparr>title := Some ''Foo''\<rparr>),
                            Some (emptyReport\<lparr>title := Some ''Foo''\<rparr>), None]"
    by (simp_all add: freshState_def duplicateFiles_def)
  have ne: "reportsCache (ensureReportsLoaded asciiPlatform duplicateFiles freshState) \<noteq> []"
    using cache_loaded[OF h, of asciiPlatform] by simp
  have r1: "sourceReads (ensureReportsLoaded asciiPlatform duplicateFiles freshState) = 1"
    using reads_loaded[OF h(1), of asciiPlatform duplicateFiles] by (simp add: freshState_def)
  have e: "reportsCache (ensureReportsLoaded asciiPlatform missingFiles freshState) = []"
    by (simp add: ensureReportsLoaded_def missingFiles_def freshState_def)
  have r2: "sourceReads (ensureReportsLoaded asciiPlatform missingFiles freshState) = 1"
    by (simp add: ensureReportsLoaded_def missingFiles_def freshState_def)
  have A: "reportsCache (ensureReportsLoaded asciiPlatform duplicateFiles
       (ensureReportsLoaded asciiPlatform duplicateFiles freshState))
     = reportsCache (ensureReportsLoaded asciiPlatform duplicateFiles freshState)"
    using t1[THEN conjunct1] .
  have B: "sourceReads (ensureReportsLoaded asciiPlatform duplicateFiles
       (ensureReportsLoaded asciiPlatform duplicateFiles freshState)) = 1"
    using t1[THEN conjunct2, THEN conjunct1] ne r1 by simp
  have C: "sourceReads (ensureReportsLoaded asciiPlatform missingFiles
       (ensureReportsLoaded asciiPlatform missingFiles freshState)) = 2"
    using t2[THEN conjunct2, THEN conjunct2] e r2 by simp
  from A B C show ?thesis by blast
qed

section \<open>Exact matches\<close>

text \<open>
  What holds of the exact lookup: the first candidate whose lookup is truthy ends the
  search, and when that lookup finds an own key of the index the result is the path stored
  under it.
\<close>

lemma exact_match_first:
  assumes "\<forall>c' \<in> set pre. \<not> truthyVal (propGet index (normalizeText P c'))"
    and "normalizeText P c \<noteq> []" and "map_of index (normalizeText P c) = Some path" and "path \<noteq> []"
  shows "findDocPathForCandidates P (Some index) (pre @ c # post) = Some (DocPath path)"
proof -
  have hit: "propGet index (normalizeText P c) = Some (DocPath path)"
    using assms(3) by (simp add: propGet_def)
  have "scanCandidates P index (pre @ c # post) best = Inl (DocPath path)" for best
    using assms(1)
  proof (induction pre arbitrary: best)
    case Nil
    show ?case using assms(2,4) hit by (simp add: Let_def truthyVal_def)
  next
    case (Cons c' pre)
    have no: "\<not> truthyVal (propGet index (normalizeText P c'))" using Cons.prems by simp
    have rest: "\<forall>c' \<in> set pre. \<not> truthyVal (propGet index (normalizeText P c'))" using Cons.prems by simp
    show ?case
      using Cons.IH[OF rest] by (simp only: append_Cons scanCandidates_step[OF no])
  qed
  then show ?thesis by (simp add: findDocPathForCandidates_def)
qed

lemma foo_bar_resolution:
  "fst (resolveExplanationPath asciiPlatform docsFiles freshState fooBarReport)
     = Some (DocPath ''/srv/data/reports/foo-bar.md'')"
  by code_simp

text \<open>
  C3. The claim: when some candidate of a report normalizes to a key of the index,
  \<open>resolveExplanationPath\<close> returns the path stored under the first such candidate. The
  code does not, at this input. The report has the candidates \<open>constructor\<close>, \<open>Constructor\<close>,
  \<open>org/foo-bar\<close> and \<open>foo-bar\<close>; the last one normalizes to \<open>foobar\<close>, the key of the indexed
  document \<^verbatim>\<open>foo-bar.md\<close>, and no other candidate normalizes to a key of the index. The
  lookup of the first candidate finds \<^verbatim>\<open>constructor\<close> on the prototype of the index object,
  and the resolver returns that function instead of the document's path.
\<close>

theorem constructor_preempts_exact_match:
  "buildReportDocCandidates asciiPlatform constructorReport (createSlug asciiPlatform ''Constructor'')
     = [''constructor'', ''Constructor'', ''org/foo-bar'', ''foo-bar'']
   \<and> scanDirectory asciiPlatform docsFiles = [(''foobar'', ''/srv/data/reports/foo-bar.md'')]
   \<and> normalizeText asciiPlatform ''foo-bar'' = ''foobar''
   \<and> fst (resolveExplanationPath asciiPlatform docsFiles freshState constructorReport)
       = Some ObjectConstructor"
  by code_simp

text \<open>
  The consequence at the endpoint: the record is cached with that function as its
  \<open>explanationPath\<close>, and the request for its explanation passes the function to
  \<^verbatim>\<open>fs.readFile\<close>, which throws; the handler answers with the status 500.
\<close>

lemma explain_constructor:
  "(case fst (explainEndpoint asciiPlatform constructorFiles (\<lambda>file. Some ''# text'') freshState ''constructor'') of
      ServerError \<Rightarrow> True | _ \<Rightarrow> False)"
  by code_simp

text \<open>
  The lookup does not need a document: called on a report titled \<open>Constructor\<close> over the
  empty index of a missing directory, the resolver returns the same function.
\<close>

lemma empty_index_constructor:
  "reportDocsIndex (snd (resolveExplanationPath asciiPlatform missingFiles freshState constructorReport)) = Some []
   \<and> fst (resolveExplanationPath asciiPlatform missingFiles freshState constructorReport)
       = Some ObjectConstructor"
  by code_simp

section \<open>Empty inputs\<close>











end
